theory Spec2Isabelle
  imports Main "HOL-Library.Word"
begin

section \<open>Strings as the standard library has them\<close>

text \<open>
  A \<open>std::string\<close> or \<open>std::string_view\<close> is a \<open>string\<close> (a list of 8-bit characters).
  Positions are \<open>std::size_t\<close> values, here natural numbers with the 64-bit wrap-around
  written out where the source computes with them. \<open>npos\<close> is the largest \<open>size_t\<close>.
\<close>

definition npos :: nat where
  "npos = 2 ^ 64 - 1"

text \<open>Addition and subtraction of \<open>size_t\<close> values (they wrap around).\<close>

definition size_add :: "nat \<Rightarrow> nat \<Rightarrow> nat" where
  "size_add a b = (a + b) mod 2 ^ 64"

definition size_sub :: "nat \<Rightarrow> nat \<Rightarrow> nat" where
  "size_sub a b = (a + 2 ^ 64 - b mod 2 ^ 64) mod 2 ^ 64"

datatype error = OutOfRange | AssertFailed

text \<open>\<open>s.find(c)\<close>: the first position of \<open>c\<close>, or \<open>npos\<close>.\<close>

definition find_chr :: "char \<Rightarrow> string \<Rightarrow> nat" where
  "find_chr c s = (if c \<in> set s then length (takeWhile (\<lambda>x. x \<noteq> c) s) else npos)"

text \<open>\<open>s.rfind(c)\<close>: the last position of \<open>c\<close>, or \<open>npos\<close>.\<close>

definition rfind_chr :: "char \<Rightarrow> string \<Rightarrow> nat" where
  "rfind_chr c s =
     (if c \<in> set s then length s - 1 - length (takeWhile (\<lambda>x. x \<noteq> c) (rev s)) else npos)"

text \<open>\<open>s.rfind(c, pos)\<close>: the last position of \<open>c\<close> that is at most \<open>pos\<close>, or \<open>npos\<close>.\<close>

definition rfind_from :: "char \<Rightarrow> string \<Rightarrow> nat \<Rightarrow> nat" where
  "rfind_from c s pos = rfind_chr c (take (Suc pos) s)"

text \<open>
  \<open>s.substr(pos, n)\<close>: throws \<open>std::out_of_range\<close> when \<open>pos > s.size()\<close>, otherwise the
  characters from \<open>pos\<close>, at most \<open>n\<close> of them.
\<close>

definition substr :: "string \<Rightarrow> nat \<Rightarrow> nat \<Rightarrow> error + string" where
  "substr s pos n = (if pos > length s then Inl OutOfRange else Inr (take n (drop pos s)))"

text \<open>\<open>s.substr(pos)\<close>: the same, with every character from \<open>pos\<close> to the end.\<close>

definition substr_from :: "string \<Rightarrow> nat \<Rightarrow> error + string" where
  "substr_from s pos = (if pos > length s then Inl OutOfRange else Inr (drop pos s))"

text \<open>\<open>std::replace(first, last, old, new)\<close> over a whole string.\<close>

definition replace_chr :: "char \<Rightarrow> char \<Rightarrow> string \<Rightarrow> string" where
  "replace_chr old new s = map (\<lambda>x. if x = old then new else x) s"

text \<open>
  \<open>std::unique(first, last, pred)\<close> followed by \<open>erase\<close>: of every run of elements in which
  each is \<open>pred\<close>-equivalent to the last one kept, the first is kept.
\<close>

fun unique_pred :: "('a \<Rightarrow> 'a \<Rightarrow> bool) \<Rightarrow> 'a list \<Rightarrow> 'a list" where
  "unique_pred P [] = []"
| "unique_pred P [x] = [x]"
| "unique_pred P (x # y # ys) =
     (if P x y then unique_pred P (x # ys) else x # unique_pred P (y # ys))"

text \<open>\<open>std::toupper\<close> in the C locale: the 26 lower-case letters change, nothing else.\<close>

definition toupper :: "char \<Rightarrow> char" where
  "toupper ch =
     (case map_of (zip ''abcdefghijklmnopqrstuvwxyz'' ''ABCDEFGHIJKLMNOPQRSTUVWXYZ'') ch of
        Some upper \<Rightarrow> upper
      | None \<Rightarrow> ch)"

section \<open>Path text\<close>

definition is_sep :: "char \<Rightarrow> bool" where
  "is_sep ch = (ch = CHR 0x5C \<or> ch = CHR ''/'')"

subsection \<open>SplitPathComponents\<close>

text \<open>
  The loop \<open>while (std::getline(stream, item, '/')) out.push_back(item)\<close>. A call of
  \<open>getline\<close> on a stream with nothing left extracts no character and fails, which ends
  the loop; otherwise it takes the characters up to the next \<open>'/'\<close> (which it consumes) or
  up to the end of the stream (after which the next call fails).
\<close>

fun getline_loop :: "string \<Rightarrow> string \<Rightarrow> string list \<Rightarrow> string list" where
  "getline_loop [] item out = (if item = [] then out else out @ [item])"
| "getline_loop (ch # rest) item out =
     (if ch = CHR ''/'' then getline_loop rest [] (out @ [item])
      else getline_loop rest (item @ [ch]) out)"

definition SplitPathComponents :: "string \<Rightarrow> string list" where
  "SplitPathComponents filename =
     (let copy = replace_chr (CHR 0x5C) (CHR ''/'') filename
      in getline_loop copy [] [])"

text \<open>
  Splitting on a character as the specification words it, with every empty component
  kept: \<open>n\<close> separators give \<open>n + 1\<close> components.
\<close>

fun split_all :: "char \<Rightarrow> string \<Rightarrow> string list" where
  "split_all c [] = [[]]"
| "split_all c (ch # rest) =
     (if ch = c then [] # split_all c rest
      else (ch # hd (split_all c rest)) # tl (split_all c rest))"

definition drop_trailing_empty :: "string list \<Rightarrow> string list" where
  "drop_trailing_empty parts = (if last parts = [] then butlast parts else parts)"

subsection \<open>GetParentPath\<close>

definition GetParentPath :: "string \<Rightarrow> error + string" where
  "GetParentPath path =
     (let name_bck_index = rfind_chr (CHR 0x5C) path;
          name_fwd_index = rfind_chr (CHR ''/'') path;
          name_index =
            (if name_bck_index = npos \<or> name_fwd_index = npos
             then min name_bck_index name_fwd_index
             else max name_bck_index name_fwd_index)
      in substr path 0 name_index)"

subsection \<open>GetPathWithoutTop\<close>

text \<open>The loop that removes the leading separators one at a time.\<close>

fun remove_leading_seps :: "string \<Rightarrow> string" where
  "remove_leading_seps [] = []"
| "remove_leading_seps (ch # rest) =
     (if ch = CHR 0x5C \<or> ch = CHR ''/'' then remove_leading_seps rest else ch # rest)"

definition GetPathWithoutTop :: "string \<Rightarrow> error + string" where
  "GetPathWithoutTop path =
     (if path = [] then Inr path
      else let path' = remove_leading_seps path
           in if path' = [] then Inr path'
              else let name_bck_index = find_chr (CHR 0x5C) path';
                       name_fwd_index = find_chr (CHR ''/'') path'
                   in substr_from path' (size_add (min name_bck_index name_fwd_index) 1))"

subsection \<open>RemoveTrailingSlash\<close>

definition RemoveTrailingSlash :: "string \<Rightarrow> string" where
  "RemoveTrailingSlash path =
     (if path = [] then path
      else if last path = CHR 0x5C \<or> last path = CHR ''/'' then butlast path
      else path)"

subsection \<open>SanitizePath\<close>

text \<open>
  The build target (\<open>#ifdef _WIN32\<close>) is a parameter of the model: the source compiles to
  two different functions.
\<close>

datatype platform = Windows | Posix

datatype DirectorySeparator = ForwardSlash | BackwardSlash | PlatformDefault

text \<open>The separator that is replaced (\<open>type1\<close>) and the one that replaces it (\<open>type2\<close>).\<close>

definition sanitize_type1 :: "platform \<Rightarrow> DirectorySeparator \<Rightarrow> char" where
  "sanitize_type1 plat directory_separator =
     (if directory_separator = PlatformDefault \<and> plat = Windows then CHR ''/''
      else if directory_separator = BackwardSlash then CHR ''/'' else CHR 0x5C)"

definition sanitize_type2 :: "platform \<Rightarrow> DirectorySeparator \<Rightarrow> char" where
  "sanitize_type2 plat directory_separator =
     (if directory_separator = PlatformDefault \<and> plat = Windows then CHR 0x5C
      else if directory_separator = BackwardSlash then CHR 0x5C else CHR ''/'')"

text \<open>
  \<open>path.erase(std::unique(start, path.end(), pred), path.end())\<close>, where \<open>start\<close> is the
  beginning of the path, moved one character on under Windows when the path is not empty.
\<close>

definition collapse_separators :: "platform \<Rightarrow> char \<Rightarrow> string \<Rightarrow> string" where
  "collapse_separators plat type2 path =
     (case plat of
        Posix \<Rightarrow> unique_pred (\<lambda>c1 c2. c1 = type2 \<and> c2 = type2) path
      | Windows \<Rightarrow>
          (case path of
             [] \<Rightarrow> []
           | first # rest \<Rightarrow> first # unique_pred (\<lambda>c1 c2. c1 = type2 \<and> c2 = type2) rest))"

definition SanitizePath :: "platform \<Rightarrow> string \<Rightarrow> DirectorySeparator \<Rightarrow> string" where
  "SanitizePath plat path0 directory_separator =
     (let type1 = sanitize_type1 plat directory_separator;
          type2 = sanitize_type2 plat directory_separator;
          path = replace_chr type1 type2 path0;
          path = collapse_separators plat type2 path
      in RemoveTrailingSlash path)"

section \<open>Short file names\<close>

definition forbidden_characters :: string where
  "forbidden_characters =
     [CHR ''.'', CHR 0x22, CHR ''/'', CHR 0x5C, CHR ''['', CHR '']'', CHR '':'', CHR '';'',
      CHR ''='', CHR '','', CHR '' '']"

text \<open>
  The split point: the last \<open>'.'\<close>, searched for again from that same position when it
  is the last character (\<open>filename.size() - 1\<close> wraps around for the empty name).
\<close>

definition split_point :: "string \<Rightarrow> nat" where
  "split_point filename =
     (let point = rfind_chr (CHR ''.'') filename
      in if point = size_sub (length filename) 1
         then rfind_from (CHR ''.'') filename point else point)"

text \<open>The loop over the characters before the split point; \<open>j\<close> counts the accepted ones.\<close>

fun short_name_loop :: "string \<Rightarrow> nat \<Rightarrow> string \<Rightarrow> string" where
  "short_name_loop [] j short_name = short_name"
| "short_name_loop (letter # rest) j short_name =
     (if letter \<in> set forbidden_characters then short_name_loop rest j short_name
      else if j = 8 then short_name[6 := CHR ''~'', 7 := CHR ''1'']
      else short_name_loop rest (Suc j) (short_name[j := toupper letter]))"

fun extension_loop :: "string \<Rightarrow> nat \<Rightarrow> string \<Rightarrow> string" where
  "extension_loop [] j extension = extension"
| "extension_loop (letter # rest) j extension =
     extension_loop rest (Suc j) (extension[j := toupper letter])"

text \<open>
  The two output arrays, \<open>std::array<char, 9>\<close> and \<open>std::array<char, 4>\<close>, are lists of
  9 and 4 characters, the last one \<open>NUL\<close>.
\<close>

definition SplitFilename83 :: "string \<Rightarrow> error + (string \<times> string)" where
  "SplitFilename83 filename =
     (let short_name = ''        '' @ [CHR 0x00];
          extension = ''   '' @ [CHR 0x00];
          point = split_point filename
      in case substr filename 0 point of
           Inl e \<Rightarrow> Inl e
         | Inr base \<Rightarrow>
             (let short_name = short_name_loop base 0 short_name
              in if point \<noteq> npos
                 then (case substr filename (size_add point 1) 3 of
                         Inl e \<Rightarrow> Inl e
                       | Inr ext \<Rightarrow> Inr (short_name, extension_loop ext 0 extension))
                 else Inr (short_name, extension)))"

section \<open>File handles\<close>

text \<open>
  The C stream functions are a parameter: \<open>'f\<close> is the state of an open stream, and each
  function returns its result with the stream's next state. Sizes, positions and counts
  are 64-bit words.
\<close>

datatype seek_origin = SeekSet | SeekCur | SeekEnd

record 'f stdio =
  ftello :: "'f \<Rightarrow> 64 word"
  fseeko :: "'f \<Rightarrow> 64 word \<Rightarrow> seek_origin \<Rightarrow> int \<times> 'f"
  fread :: "'f \<Rightarrow> 64 word \<Rightarrow> 64 word \<Rightarrow> 64 word \<times> 8 word list \<times> 'f"
  fwrite :: "'f \<Rightarrow> 8 word list \<Rightarrow> 64 word \<Rightarrow> 64 word \<Rightarrow> 64 word \<times> 'f"

text \<open>
  Modelled from the spec: \<open>IOFile::IsOpen\<close> is declared in \<open>common/file_util.h\<close>, which is
  not among the sources. A handle wraps at most one open file resource: the member
  \<open>m_file\<close> is a stream or \<open>nullptr\<close> (\<open>None\<close>), and the handle is open when it holds one.
\<close>

definition IsOpen :: "'f option \<Rightarrow> bool" where
  "IsOpen m_file = (m_file \<noteq> None)"

text \<open>\<open>u64 GetSize(FILE* f)\<close>\<close>

definition GetSize_FILE :: "'f stdio \<Rightarrow> 'f \<Rightarrow> 64 word \<times> 'f" where
  "GetSize_FILE io f =
     (let pos = ftello io f;
          (rc, f1) = fseeko io f 0 SeekEnd
      in if rc \<noteq> 0 then (0, f1)
         else let size = ftello io f1
              in if size \<noteq> pos
                 then (let (rc2, f2) = fseeko io f1 pos SeekSet
                       in if rc2 \<noteq> 0 then (0, f2) else (size, f2))
                 else (size, f1))"

text \<open>The methods of \<open>IOFile\<close>: each returns its result and the member \<open>m_file\<close> after it.\<close>

definition GetSize :: "'f stdio \<Rightarrow> 'f option \<Rightarrow> 64 word \<times> 'f option" where
  "GetSize io m_file =
     (case m_file of
        Some f \<Rightarrow> (let (size, f') = GetSize_FILE io f in (size, Some f'))
      | None \<Rightarrow> (0, None))"

definition Tell :: "'f stdio \<Rightarrow> 'f option \<Rightarrow> 64 word" where
  "Tell io m_file = (case m_file of Some f \<Rightarrow> ftello io f | None \<Rightarrow> - 1)"

definition ReadImpl ::
  "'f stdio \<Rightarrow> 'f option \<Rightarrow> 64 word \<Rightarrow> 64 word \<Rightarrow> 64 word \<times> 8 word list \<times> 'f option" where
  "ReadImpl io m_file length' data_size =
     (case m_file of
        None \<Rightarrow> (- 1, [], None)
      | Some f \<Rightarrow>
          if length' = 0 then (0, [], Some f)
          else (let (n, bytes, f') = fread io f data_size length' in (n, bytes, Some f')))"

definition WriteImpl ::
  "'f stdio \<Rightarrow> 'f option \<Rightarrow> 8 word list \<Rightarrow> 64 word \<Rightarrow> 64 word \<Rightarrow> 64 word \<times> 'f option" where
  "WriteImpl io m_file data length' data_size =
     (case m_file of
        None \<Rightarrow> (- 1, None)
      | Some f \<Rightarrow>
          if length' = 0 then (0, Some f)
          else (let (n, f') = fwrite io f data data_size length' in (n, Some f')))"

text \<open>A stream whose every operation fails, to have a closed handle of a definite type.\<close>

definition failing_stdio :: "unit stdio" where
  "failing_stdio =
     \<lparr>ftello = (\<lambda>f. - 1), fseeko = (\<lambda>f off origin. (- 1, f)),
      fread = (\<lambda>f data_size n. (0, [], f)), fwrite = (\<lambda>f data data_size n. (0, f))\<rparr>"

section \<open>The user path registry\<close>

text \<open>
  The roles (\<open>enum class UserPath\<close>) and the directory-name macros of
  \<open>common/common_paths.h\<close> are used by \<open>GetUserPath\<close> but declared outside the sources. The
  roles are the enumerators the function names; the macros are a parameter of the model.
\<close>

datatype UserPath =
  CacheDir | ConfigDir | KeysDir | LogDir | DumpDir | LoadDir | NANDDir | RootDir
  | ScreenshotsDir | SDMCDir | ShaderDir | SysDataDir | UserDir

record path_consts =
  DIR_SEP :: string
  ROOT_DIR :: string
  USERDATA_DIR :: string
  EMU_DATA_DIR :: string
  CONFIG_DIR :: string
  CACHE_DIR :: string
  SDMC_DIR :: string
  NAND_DIR :: string
  LOAD_DIR :: string
  DUMP_DIR :: string
  SCREENSHOTS_DIR :: string
  SHADER_DIR :: string
  SYSDATA_DIR :: string
  KEYS_DIR :: string
  LOG_DIR :: string

text \<open>
  What the function asks of its host: the file system (\<open>Exists\<close>, \<open>IsDirectory\<close>), the
  environment variables, the home directory of the password database (\<open>None\<close> when the
  user is not found), and under Windows the file name of the running module and the
  roaming application-data folder.
\<close>

record host_env =
  Exists :: "string \<Rightarrow> bool"
  IsDirectory :: "string \<Rightarrow> bool"
  getenv :: "string \<Rightarrow> string option"
  pw_dir :: "string option"
  module_file_name :: string
  appdata_roaming :: string

text \<open>
  The static \<open>std::unordered_map<UserPath, std::string> paths\<close>. \<open>paths[k]\<close> inserts an
  empty string when \<open>k\<close> has no entry (\<open>subscript\<close>) and denotes the entry's string
  (\<open>lookup\<close>); \<open>emplace\<close> inserts only when \<open>k\<close> has no entry.
\<close>

type_synonym path_table = "UserPath \<Rightarrow> string option"

definition subscript :: "path_table \<Rightarrow> UserPath \<Rightarrow> path_table" where
  "subscript paths k = (case paths k of None \<Rightarrow> paths(k \<mapsto> []) | Some v \<Rightarrow> paths)"

definition lookup :: "path_table \<Rightarrow> UserPath \<Rightarrow> string" where
  "lookup paths k = (case paths k of None \<Rightarrow> [] | Some v \<Rightarrow> v)"

definition emplace :: "path_table \<Rightarrow> UserPath \<Rightarrow> string \<Rightarrow> path_table" where
  "emplace paths k v = (case paths k of None \<Rightarrow> paths(k \<mapsto> v) | Some old \<Rightarrow> paths)"

text \<open>
  \<open>GetHomeDirectory\<close>: \<open>$HOME\<close>, else the password database; the assertion aborts when the
  user is not found.
\<close>

definition GetHomeDirectory :: "host_env \<Rightarrow> error + string" where
  "GetHomeDirectory env =
     (case getenv env ''HOME'' of
        Some envvar \<Rightarrow> Inr envvar
      | None \<Rightarrow> (case pw_dir env of None \<Rightarrow> Inl AssertFailed | Some dir \<Rightarrow> Inr dir))"

definition GetUserDirectory :: "host_env \<Rightarrow> path_consts \<Rightarrow> string \<Rightarrow> error + string" where
  "GetUserDirectory env c envvar =
     (let user_dir =
        (case getenv env envvar of
           Some directory \<Rightarrow> Inr directory
         | None \<Rightarrow>
             (let subdirectory =
                (if envvar = ''XDG_DATA_HOME''
                 then Inr (DIR_SEP c @ ''.local'' @ DIR_SEP c @ ''share'')
                 else if envvar = ''XDG_CONFIG_HOME'' then Inr (DIR_SEP c @ ''.config'')
                 else if envvar = ''XDG_CACHE_HOME'' then Inr (DIR_SEP c @ ''.cache'')
                 else Inl AssertFailed)
              in case subdirectory of
                   Inl e \<Rightarrow> Inl e
                 | Inr sub \<Rightarrow>
                     (case GetHomeDirectory env of
                        Inl e \<Rightarrow> Inl e
                      | Inr home \<Rightarrow> Inr (home @ sub))))
      in case user_dir of
           Inl e \<Rightarrow> Inl e
         | Inr dir \<Rightarrow>
             if dir = [] then Inl AssertFailed
             else if hd dir \<noteq> CHR ''/'' then Inl AssertFailed
             else Inr dir)"

text \<open>
  \<open>GetExeDirectory\<close>: the module's file name up to its last backslash (\<open>substr(0, n)\<close> takes
  the whole name when there is none).
\<close>

definition GetExeDirectory :: "host_env \<Rightarrow> string" where
  "GetExeDirectory env =
     take (rfind_chr (CHR 0x5C) (module_file_name env)) (module_file_name env)"

text \<open>
  The block that runs when \<open>user_path\<close> (the entry of \<open>UserDir\<close>) is empty. \<open>user_path\<close> is a
  reference into the table, so assigning it is an update of the table at \<open>UserDir\<close>.
\<close>

definition emplace_common :: "path_consts \<Rightarrow> string \<Rightarrow> path_table \<Rightarrow> path_table" where
  "emplace_common c user_path paths =
     (let paths = emplace paths SDMCDir (user_path @ SDMC_DIR c @ DIR_SEP c);
          paths = emplace paths NANDDir (user_path @ NAND_DIR c @ DIR_SEP c);
          paths = emplace paths LoadDir (user_path @ LOAD_DIR c @ DIR_SEP c);
          paths = emplace paths DumpDir (user_path @ DUMP_DIR c @ DIR_SEP c);
          paths = emplace paths ScreenshotsDir (user_path @ SCREENSHOTS_DIR c @ DIR_SEP c);
          paths = emplace paths ShaderDir (user_path @ SHADER_DIR c @ DIR_SEP c);
          paths = emplace paths SysDataDir (user_path @ SYSDATA_DIR c @ DIR_SEP c);
          paths = emplace paths KeysDir (user_path @ KEYS_DIR c @ DIR_SEP c)
      in emplace paths LogDir (user_path @ LOG_DIR c @ DIR_SEP c))"

definition set_up_paths ::
  "platform \<Rightarrow> host_env \<Rightarrow> path_consts \<Rightarrow> path_table \<Rightarrow> error + path_table" where
  "set_up_paths plat env c paths =
     (case plat of
        Windows \<Rightarrow>
          (let local_path = GetExeDirectory env @ DIR_SEP c @ USERDATA_DIR c @ DIR_SEP c;
               user_path =
                 (if \<not> IsDirectory env local_path
                  then appdata_roaming env @ DIR_SEP c @ EMU_DATA_DIR c @ DIR_SEP c
                  else local_path);
               paths = paths(UserDir \<mapsto> user_path);
               paths = emplace paths ConfigDir (user_path @ CONFIG_DIR c @ DIR_SEP c);
               paths = emplace paths CacheDir (user_path @ CACHE_DIR c @ DIR_SEP c)
           in Inr (emplace_common c user_path paths))
      | Posix \<Rightarrow>
          if Exists env (ROOT_DIR c @ DIR_SEP c @ USERDATA_DIR c)
          then (let user_path = ROOT_DIR c @ DIR_SEP c @ USERDATA_DIR c @ DIR_SEP c;
                    paths = paths(UserDir \<mapsto> user_path);
                    paths = emplace paths ConfigDir (user_path @ CONFIG_DIR c @ DIR_SEP c);
                    paths = emplace paths CacheDir (user_path @ CACHE_DIR c @ DIR_SEP c)
                in Inr (emplace_common c user_path paths))
          else
            (case GetUserDirectory env c ''XDG_DATA_HOME'' of
               Inl e \<Rightarrow> Inl e
             | Inr data_dir \<Rightarrow>
                 (case GetUserDirectory env c ''XDG_CONFIG_HOME'' of
                    Inl e \<Rightarrow> Inl e
                  | Inr config_dir \<Rightarrow>
                      (case GetUserDirectory env c ''XDG_CACHE_HOME'' of
                         Inl e \<Rightarrow> Inl e
                       | Inr cache_dir \<Rightarrow>
                           (let user_path = data_dir @ DIR_SEP c @ EMU_DATA_DIR c @ DIR_SEP c;
                                paths = paths(UserDir \<mapsto> user_path);
                                paths = emplace paths ConfigDir
                                          (config_dir @ DIR_SEP c @ EMU_DATA_DIR c @ DIR_SEP c);
                                paths = emplace paths CacheDir
                                          (cache_dir @ DIR_SEP c @ EMU_DATA_DIR c @ DIR_SEP c)
                            in Inr (emplace_common c user_path paths))))))"

text \<open>
  The first part of \<open>GetUserPath\<close>: \<open>auto& user_path = paths[UserPath::UserDir]\<close>, then the
  set-up when \<open>user_path\<close> is empty.
\<close>

definition ensure_set_up ::
  "platform \<Rightarrow> host_env \<Rightarrow> path_consts \<Rightarrow> path_table \<Rightarrow> error + path_table" where
  "ensure_set_up plat env c paths =
     (let paths = subscript paths UserDir
      in if lookup paths UserDir = [] then set_up_paths plat env c paths else Inr paths)"

text \<open>
  The second part: the override when \<open>new_path\<close> is not empty, and the returned
  \<open>paths[path]\<close>. The result is the returned string and the table after the call.
\<close>

definition override_and_return ::
  "host_env \<Rightarrow> path_consts \<Rightarrow> path_table \<Rightarrow> UserPath \<Rightarrow> string \<Rightarrow> string \<times> path_table" where
  "override_and_return env c paths path new_path =
     (if new_path \<noteq> [] then
        (if \<not> IsDirectory env new_path then (lookup paths path, subscript paths path)
         else
           (let paths = paths(path \<mapsto> new_path);
                paths =
                  (if path = RootDir
                   then paths(UserDir \<mapsto> lookup paths RootDir @ DIR_SEP c)
                   else if path = UserDir
                   then (let paths = subscript paths RootDir;
                             user_path = lookup paths RootDir @ DIR_SEP c;
                             paths = paths(UserDir \<mapsto> user_path);
                             paths = paths(ConfigDir \<mapsto> user_path @ CONFIG_DIR c @ DIR_SEP c);
                             paths = paths(CacheDir \<mapsto> user_path @ CACHE_DIR c @ DIR_SEP c);
                             paths = paths(SDMCDir \<mapsto> user_path @ SDMC_DIR c @ DIR_SEP c)
                         in paths(NANDDir \<mapsto> user_path @ NAND_DIR c @ DIR_SEP c))
                   else paths)
            in (lookup paths path, subscript paths path)))
      else (lookup paths path, subscript paths path))"

definition GetUserPath ::
  "platform \<Rightarrow> host_env \<Rightarrow> path_consts \<Rightarrow> path_table \<Rightarrow> UserPath \<Rightarrow> string
     \<Rightarrow> error + (string \<times> path_table)" where
  "GetUserPath plat env c paths path new_path =
     (case ensure_set_up plat env c paths of
        Inl e \<Rightarrow> Inl e
      | Inr paths' \<Rightarrow> Inr (override_and_return env c paths' path new_path))"

text \<open>
  \<open>Resolve(role)\<close> is the call with the default empty \<open>new_path\<close>; \<open>Override(role, p)\<close> is
  the call with \<open>p\<close>. A run is a sequence of calls, each on the table the last one left.
\<close>

definition Resolve ::
  "platform \<Rightarrow> host_env \<Rightarrow> path_consts \<Rightarrow> path_table \<Rightarrow> UserPath \<Rightarrow> error + string" where
  "Resolve plat env c paths role =
     (case GetUserPath plat env c paths role [] of Inl e \<Rightarrow> Inl e | Inr r \<Rightarrow> Inr (fst r))"

fun run_calls ::
  "platform \<Rightarrow> host_env \<Rightarrow> path_consts \<Rightarrow> path_table \<Rightarrow> (UserPath \<times> string) list
     \<Rightarrow> error + path_table" where
  "run_calls plat env c paths [] = Inr paths"
| "run_calls plat env c paths (call # rest) =
     (case GetUserPath plat env c paths (fst call) (snd call) of
        Inl e \<Rightarrow> Inl e
      | Inr r \<Rightarrow> run_calls plat env c (snd r) rest)"

text \<open>What \<open>Resolve(role)\<close> returns after a run of calls on the table of a fresh process.\<close>

definition resolve_after ::
  "platform \<Rightarrow> host_env \<Rightarrow> path_consts \<Rightarrow> (UserPath \<times> string) list \<Rightarrow> UserPath
     \<Rightarrow> error + string" where
  "resolve_after plat env c calls role =
     (case run_calls plat env c Map.empty calls of
        Inl e \<Rightarrow> Inl e
      | Inr paths \<Rightarrow> Resolve plat env c paths role)"

text \<open>
  A call that leaves the relation between the user directory and the configuration
  directory alone: it is a query, a rejected override, or an override of a role other than
  the root and the configuration directory itself.
\<close>

definition keeps_config :: "host_env \<Rightarrow> UserPath \<times> string \<Rightarrow> bool" where
  "keeps_config env call =
     (snd call = [] \<or> (if IsDirectory env (snd call)
                        then fst call \<noteq> RootDir \<and> fst call \<noteq> ConfigDir else True))"

text \<open>
  The relation between two entries of the table that the set-up with an install-relative
  user directory establishes: the user directory is not empty and ends with the separator,
  and the configuration directory is the user directory with \<open>CONFIG_DIR DIR_SEP\<close> appended.
\<close>

definition config_under_user :: "path_consts \<Rightarrow> path_table \<Rightarrow> bool" where
  "config_under_user c paths =
     (case paths UserDir of
        None \<Rightarrow> False
      | Some user_path \<Rightarrow>
          user_path \<noteq> [] \<and> [last user_path] = DIR_SEP c
          \<and> paths ConfigDir = Some (user_path @ CONFIG_DIR c @ DIR_SEP c))"

text \<open>
  A direct descendant, as the specification words it: the child path is the parent path,
  which ends with a separator, followed by one non-empty name without separators and at
  most one trailing separator.
\<close>

definition direct_descendant :: "string \<Rightarrow> string \<Rightarrow> bool" where
  "direct_descendant parent child =
     (parent \<noteq> [] \<and> is_sep (last parent) \<and> take (length parent) child = parent
      \<and> RemoveTrailingSlash (drop (length parent) child) \<noteq> []
      \<and> \<not> list_ex is_sep (RemoveTrailingSlash (drop (length parent) child)))"

text \<open>
  One assignment of the directory-name macros and two hosts, for concrete runs: a host
  without an install-relative user directory, where the base-directory variables are unset
  and \<open>$HOME\<close> is \<open>/home/u\<close>, and a host with the install-relative user directory. On both,
  \<open>/data\<close> is the only directory an override is offered.
\<close>

definition example_consts :: path_consts where
  "example_consts =
     \<lparr>DIR_SEP = ''/'', ROOT_DIR = ''.'', USERDATA_DIR = ''user'', EMU_DATA_DIR = ''yuzu'',
      CONFIG_DIR = ''config'', CACHE_DIR = ''cache'', SDMC_DIR = ''sdmc'', NAND_DIR = ''nand'',
      LOAD_DIR = ''load'', DUMP_DIR = ''dump'', SCREENSHOTS_DIR = ''screenshots'',
      SHADER_DIR = ''shader'', SYSDATA_DIR = ''sysdata'', KEYS_DIR = ''keys'',
      LOG_DIR = ''log''\<rparr>"

definition xdg_host :: host_env where
  "xdg_host =
     \<lparr>Exists = (\<lambda>p. p = ''/data''), IsDirectory = (\<lambda>p. p = ''/data''),
      getenv = (\<lambda>v. if v = ''HOME'' then Some ''/home/u'' else None),
      pw_dir = None, module_file_name = [], appdata_roaming = []\<rparr>"

definition portable_host :: host_env where
  "portable_host =
     \<lparr>Exists = (\<lambda>p. p = ''./user'' \<or> p = ''/data''), IsDirectory = (\<lambda>p. p = ''./user'' \<or> p = ''/data''),
      getenv = (\<lambda>v. if v = ''HOME'' then Some ''/home/u'' else None),
      pw_dir = None, module_file_name = [], appdata_roaming = []\<rparr>"

text \<open>The table that the first call of a process leaves on the second host.\<close>

definition portable_table :: path_table where
  "portable_table =
     [UserDir \<mapsto> ''./user/'', ConfigDir \<mapsto> ''./user/config/'', CacheDir \<mapsto> ''./user/cache/'',
      SDMCDir \<mapsto> ''./user/sdmc/'', NANDDir \<mapsto> ''./user/nand/'', LoadDir \<mapsto> ''./user/load/'',
      DumpDir \<mapsto> ''./user/dump/'', ScreenshotsDir \<mapsto> ''./user/screenshots/'',
      ShaderDir \<mapsto> ''./user/shader/'', SysDataDir \<mapsto> ''./user/sysdata/'',
      KeysDir \<mapsto> ''./user/keys/'', LogDir \<mapsto> ''./user/log/'']"

section \<open>Properties of the path text operations\<close>

subsection \<open>Searching\<close>

lemma no_sep_notin:
  assumes "\<not> list_ex is_sep p"
  shows "CHR 0x5C \<notin> set p" and "CHR ''/'' \<notin> set p"
proof -
  have "is_sep (CHR 0x5C)" "is_sep (CHR ''/'')" by (simp_all add: is_sep_def)
  then show "CHR 0x5C \<notin> set p" and "CHR ''/'' \<notin> set p"
    using assms unfolding list_ex_iff by blast+
qed

lemma find_chr_absent: "c \<notin> set s \<Longrightarrow> find_chr c s = npos"
  by (simp add: find_chr_def)

lemma rfind_chr_absent: "c \<notin> set s \<Longrightarrow> rfind_chr c s = npos"
  by (simp add: rfind_chr_def)

lemma takeWhile_rev_last:
  "c \<notin> set post \<Longrightarrow> takeWhile (\<lambda>x. x \<noteq> c) (rev (pre @ c # post)) = rev post"
  by (induction post rule: rev_induct) auto

lemma rfind_chr_last: "c \<notin> set post \<Longrightarrow> rfind_chr c (pre @ c # post) = length pre"
  using takeWhile_rev_last[of c post pre] by (simp add: rfind_chr_def)

lemma rfind_chr_before:
  assumes "c \<notin> set post" "x \<noteq> c" "c \<in> set pre"
  shows "rfind_chr c (pre @ x # post) < length pre"
proof -
  from assms(3) obtain a b where ab: "pre = a @ c # b" "c \<notin> set b"
    by (meson split_list_last)
  have "rfind_chr c (a @ c # (b @ x # post)) = length a"
    by (rule rfind_chr_last) (use assms ab in auto)
  then show ?thesis using ab by simp
qed

lemma size_add_npos: "size_add npos 1 = 0"
  by (simp add: size_add_def npos_def)

subsection \<open>SplitPathComponents\<close>

lemma split_all_ne: "split_all c s \<noteq> []"
  by (induction s) auto

lemma split_all_snoc: "split_all c (s @ [c]) = split_all c s @ [[]]"
  by (induction s) (auto simp: split_all_ne)

lemma getline_loop_split:
  "getline_loop s item out =
     out @ drop_trailing_empty
       ((item @ hd (split_all (CHR ''/'') s)) # tl (split_all (CHR ''/'') s))"
proof (induction s arbitrary: item out)
  case Nil
  show ?case by (simp add: drop_trailing_empty_def)
next
  case (Cons ch rest)
  show ?case
  proof (cases "ch = CHR ''/''")
    case True
    obtain w ws where w: "split_all (CHR ''/'') rest = w # ws"
      using split_all_ne[of "CHR ''/''" rest] by (cases "split_all (CHR ''/'') rest") auto
    show ?thesis using True w by (simp add: Cons.IH drop_trailing_empty_def)
  next
    case False
    then show ?thesis by (simp add: Cons.IH)
  qed
qed

lemma SplitPathComponents_eq:
  "SplitPathComponents p =
     drop_trailing_empty (split_all (CHR ''/'') (replace_chr (CHR 0x5C) (CHR ''/'') p))"
  using split_all_ne[of "CHR ''/''" "replace_chr (CHR 0x5C) (CHR ''/'') p"]
  by (cases "split_all (CHR ''/'') (replace_chr (CHR 0x5C) (CHR ''/'') p)")
     (simp_all add: SplitPathComponents_def getline_loop_split)

lemma replace_chr_sep_cons:
  "is_sep s \<Longrightarrow>
   replace_chr (CHR 0x5C) (CHR ''/'') (s # p) = CHR ''/'' # replace_chr (CHR 0x5C) (CHR ''/'') p"
  by (auto simp: is_sep_def replace_chr_def)

lemma replace_chr_sep_snoc:
  "is_sep s \<Longrightarrow>
   replace_chr (CHR 0x5C) (CHR ''/'') (p @ [s]) = replace_chr (CHR 0x5C) (CHR ''/'') p @ [CHR ''/'']"
  by (auto simp: is_sep_def replace_chr_def)

lemma SplitPathComponents_leading:
  assumes "is_sep s"
  shows "SplitPathComponents (s # p) = [] # SplitPathComponents p"
proof -
  let ?xs = "split_all (CHR ''/'') (replace_chr (CHR 0x5C) (CHR ''/'') p)"
  have ne: "?xs \<noteq> []" by (rule split_all_ne)
  have "SplitPathComponents (s # p) = drop_trailing_empty ([] # ?xs)"
    by (simp add: SplitPathComponents_eq replace_chr_sep_cons[OF assms])
  also have "\<dots> = [] # drop_trailing_empty ?xs"
    using ne by (simp add: drop_trailing_empty_def)
  finally show ?thesis by (simp add: SplitPathComponents_eq)
qed

lemma SplitPathComponents_trailing:
  assumes "is_sep s"
  shows "SplitPathComponents (p @ [s]) =
           split_all (CHR ''/'') (replace_chr (CHR 0x5C) (CHR ''/'') p)"
  by (simp add: SplitPathComponents_eq replace_chr_sep_snoc[OF assms] split_all_snoc
      drop_trailing_empty_def)

text \<open>
  Claim C7, as the code has it. \<open>SplitPathComponents\<close> replaces every backslash with a
  forward slash and splits on \<open>'/'\<close>; every empty component is kept except the empty
  remainder after a final separator, for which \<open>getline\<close> produces no entry. So a leading
  separator yields an empty first entry, while a trailing separator only ends the last
  component: the result for \<open>p\<close> followed by a separator is the full split of \<open>p\<close>, with
  no entry added.
\<close>

theorem SplitPathComponents_getline:
  assumes "is_sep s"
  shows "SplitPathComponents p =
           drop_trailing_empty (split_all (CHR ''/'') (replace_chr (CHR 0x5C) (CHR ''/'') p))
         \<and> SplitPathComponents (s # p) = [] # SplitPathComponents p
         \<and> SplitPathComponents (p @ [s]) =
             split_all (CHR ''/'') (replace_chr (CHR 0x5C) (CHR ''/'') p)"
  using SplitPathComponents_eq SplitPathComponents_leading[OF assms]
    SplitPathComponents_trailing[OF assms] by simp

theorem SplitPathComponents_getline_witness:
  "is_sep (CHR 0x5C)
   \<and> SplitPathComponents [CHR ''a'', CHR 0x5C, CHR ''b'', CHR ''/'', CHR ''/'', CHR ''c'']
       = [''a'', ''b'', [], ''c'']
   \<and> SplitPathComponents [CHR 0x5C, CHR ''a'', CHR 0x5C, CHR ''b'', CHR ''/'', CHR ''/'', CHR ''c'']
       = [[], ''a'', ''b'', [], ''c'']
   \<and> SplitPathComponents [CHR ''a'', CHR 0x5C, CHR ''b'', CHR ''/'', CHR ''/'', CHR ''c'', CHR 0x5C]
       = [''a'', ''b'', [], ''c'']"
proof -
  have s: "is_sep (CHR 0x5C)" by (simp add: is_sep_def)
  show ?thesis
    using s SplitPathComponents_getline[OF s,
        of "[CHR ''a'', CHR 0x5C, CHR ''b'', CHR ''/'', CHR ''/'', CHR ''c'']"]
    by (simp add: drop_trailing_empty_def replace_chr_def)
qed

theorem SplitPathComponents_trailing_counterexample:
  "SplitPathComponents ''a/'' = [''a''] \<and> last (SplitPathComponents ''a/'') \<noteq> []"
  by (simp add: SplitPathComponents_def replace_chr_def)

subsection \<open>GetParentPath\<close>

lemma name_index_pick:
  assumes "a = n" "b = npos \<or> b < n" "n < npos"
  shows "(if a = npos \<or> b = npos then min a b else max a b) = n"
    and "(if b = npos \<or> a = npos then min b a else max b a) = n"
  using assms by auto

lemma GetParentPath_nosep:
  assumes "\<not> list_ex is_sep path" "length path < npos"
  shows "GetParentPath path = Inr path"
  using assms(2) no_sep_notin[OF assms(1)]
  by (simp add: GetParentPath_def rfind_chr_absent substr_def)

lemma GetParentPath_sep:
  assumes "path = pre @ s # post" "is_sep s" "\<not> list_ex is_sep post" "length path < npos"
  shows "GetParentPath path = Inr pre"
proof -
  note post = no_sep_notin[OF assms(3)]
  have lt: "length pre < npos" using assms(1,4) by simp
  have other: "rfind_chr t path = npos \<or> rfind_chr t path < length pre"
    if "t \<noteq> s" "t \<notin> set post" for t
  proof (cases "t \<in> set pre")
    case True
    then show ?thesis unfolding assms(1) using rfind_chr_before[of t post s pre] that by simp
  next
    case False
    then have "t \<notin> set path" using that assms(1) by auto
    then show ?thesis by (simp add: rfind_chr_absent)
  qed
  have idx: "(if rfind_chr (CHR 0x5C) path = npos \<or> rfind_chr (CHR ''/'') path = npos
              then min (rfind_chr (CHR 0x5C) path) (rfind_chr (CHR ''/'') path)
              else max (rfind_chr (CHR 0x5C) path) (rfind_chr (CHR ''/'') path)) = length pre"
  proof (cases "s = CHR ''/''")
    case True
    have "rfind_chr (CHR ''/'') path = length pre"
      unfolding assms(1) True by (rule rfind_chr_last) (rule post)
    moreover have "rfind_chr (CHR 0x5C) path = npos \<or> rfind_chr (CHR 0x5C) path < length pre"
      by (rule other) (use True post in auto)
    ultimately show ?thesis using lt by (rule name_index_pick(2))
  next
    case False
    then have s: "s = CHR 0x5C" using assms(2) by (simp add: is_sep_def)
    have "rfind_chr (CHR 0x5C) path = length pre"
      unfolding assms(1) s by (rule rfind_chr_last) (rule post)
    moreover have "rfind_chr (CHR ''/'') path = npos \<or> rfind_chr (CHR ''/'') path < length pre"
      by (rule other) (use s post in auto)
    ultimately show ?thesis using lt by (rule name_index_pick(1))
  qed
  show ?thesis
    unfolding GetParentPath_def Let_def idx substr_def using assms(1) by simp
qed

text \<open>
  Claim C6, as the code has it. For a path (shorter than the largest \<open>size_t\<close>, as every
  string is) that contains no separator, both searches give \<open>npos\<close> and
  \<open>substr(0, npos)\<close> is the whole path: \<open>GetParentPath\<close> returns the path unchanged, not the
  empty string. For a path with at least one separator it returns the text before the
  right-most separator of either kind.
\<close>

theorem GetParentPath_rightmost:
  assumes "length path < npos"
  shows "(\<not> list_ex is_sep path \<longrightarrow> GetParentPath path = Inr path)
       \<and> (path = pre @ s # post \<and> is_sep s \<and> \<not> list_ex is_sep post
            \<longrightarrow> GetParentPath path = Inr pre)"
  using GetParentPath_nosep[OF _ assms] GetParentPath_sep[OF _ _ _ assms] by blast

theorem GetParentPath_rightmost_witness:
  "length ''abc'' < npos \<and> \<not> list_ex is_sep ''abc'' \<and> GetParentPath ''abc'' = Inr ''abc''
   \<and> length ''/a/b/c'' < npos \<and> ''/a/b/c'' = ''/a/b'' @ CHR ''/'' # ''c'' \<and> is_sep (CHR ''/'')
   \<and> \<not> list_ex is_sep ''c'' \<and> GetParentPath ''/a/b/c'' = Inr ''/a/b''"
proof -
  have a: "length ''abc'' < npos" and b: "length ''/a/b/c'' < npos"
    by (simp_all add: npos_def)
  have c: "\<not> list_ex is_sep ''abc''" "\<not> list_ex is_sep ''c''" "is_sep (CHR ''/'')"
    by (simp_all add: is_sep_def)
  have d: "''/a/b/c'' = ''/a/b'' @ CHR ''/'' # ''c''" by simp
  from GetParentPath_rightmost[OF a, of "[]" "CHR ''/''" "[]"] c
  have 1: "GetParentPath ''abc'' = Inr ''abc''" by blast
  from GetParentPath_rightmost[OF b, of "''/a/b''" "CHR ''/''" "''c''"] c d
  have 2: "GetParentPath ''/a/b/c'' = Inr ''/a/b''" by blast
  show ?thesis using a b c d 1 2 by blast
qed

theorem GetParentPath_nosep_counterexample:
  "\<not> list_ex is_sep ''abc'' \<and> GetParentPath ''abc'' \<noteq> Inr []"
  by (simp add: GetParentPath_def rfind_chr_def substr_def npos_def is_sep_def)

subsection \<open>GetPathWithoutTop\<close>

lemma remove_leading_seps_eq: "remove_leading_seps p = dropWhile is_sep p"
  by (induction p) (simp_all add: is_sep_def)

text \<open>
  Claim C10. When what is left of the path after its leading separators holds no further
  separator, both searches give \<open>npos\<close>, \<open>npos + 1\<close> wraps around to 0, and
  \<open>GetPathWithoutTop\<close> returns the stripped path unchanged.
\<close>

theorem GetPathWithoutTop_single_component:
  assumes "\<not> list_ex is_sep (dropWhile is_sep path)"
  shows "GetPathWithoutTop path = Inr (dropWhile is_sep path)"
proof (cases "dropWhile is_sep path = []")
  case True
  then show ?thesis
    by (simp add: GetPathWithoutTop_def remove_leading_seps_eq)
next
  case False
  let ?p = "dropWhile is_sep path"
  have f: "find_chr (CHR 0x5C) ?p = npos" "find_chr (CHR ''/'') ?p = npos"
    using no_sep_notin[OF assms] by (simp_all add: find_chr_absent)
  have ne: "path \<noteq> []" using False by auto
  have "GetPathWithoutTop path = substr_from ?p (size_add (min npos npos) 1)"
    unfolding GetPathWithoutTop_def remove_leading_seps_eq Let_def f
    using False ne by (simp only: if_False)
  also have "\<dots> = Inr ?p"
    by (simp only: min.idem size_add_npos) (simp add: substr_from_def)
  finally show ?thesis .
qed

theorem GetPathWithoutTop_single_component_witness:
  "\<not> list_ex is_sep (dropWhile is_sep ''//abc'') \<and> GetPathWithoutTop ''//abc'' = Inr ''abc''"
proof -
  have a: "\<not> list_ex is_sep (dropWhile is_sep ''//abc'')" by (simp add: is_sep_def)
  show ?thesis using a GetPathWithoutTop_single_component[OF a] by (simp add: is_sep_def)
qed

subsection \<open>SanitizePath\<close>

lemma unique_pred_Cons: "\<exists>zs. unique_pred P (x # ys) = x # zs"
  by (induction ys) auto

lemma set_unique_pred: "set (unique_pred P xs) \<subseteq> set xs"
  by (induction P xs rule: unique_pred.induct) auto

lemma successively_unique_pred:
  "successively (\<lambda>a b. \<not> P a b) (unique_pred P xs)"
proof (induction P xs rule: unique_pred.induct)
  case (3 P x y ys)
  obtain zs where zs: "unique_pred P (y # ys) = y # zs"
    using unique_pred_Cons[of P y ys] by auto
  show ?case using 3 zs by auto
qed simp_all

lemma unique_pred_id:
  "successively (\<lambda>a b. \<not> P a b) xs \<Longrightarrow> unique_pred P xs = xs"
  by (induction P xs rule: unique_pred.induct) auto

lemma successively_butlast:
  "successively Q xs \<Longrightarrow> successively Q (butlast xs)"
  by (induction xs rule: rev_induct) (auto simp: successively_append_iff)

lemma successively_last_butlast:
  assumes "successively (\<lambda>a b. \<not> (a = t \<and> b = t)) xs" "xs \<noteq> []" "last xs = t" "butlast xs \<noteq> []"
  shows "last (butlast xs) \<noteq> t"
proof -
  obtain ys a where xs: "xs = ys @ [a]" using assms(2) by (meson rev_exhaust)
  with assms(4) obtain zs b where ys: "ys = zs @ [b]" by (cases ys rule: rev_cases) auto
  have bl: "butlast xs = zs @ [b]" unfolding xs ys by (simp only: butlast_snoc)
  have "successively (\<lambda>a b. \<not> (a = t \<and> b = t)) (zs @ [b] @ [a])"
    using assms(1) unfolding xs ys by simp
  then have "\<not> (b = t \<and> a = t)"
    by (simp add: successively_append_iff)
  moreover have "a = t" using assms(3) xs by simp
  ultimately show ?thesis unfolding bl by simp
qed


lemma sanitize_types:
  "sanitize_type1 plat ds \<noteq> sanitize_type2 plat ds"
  "is_sep c \<longleftrightarrow> c = sanitize_type1 plat ds \<or> c = sanitize_type2 plat ds"
  by (auto simp: sanitize_type1_def sanitize_type2_def is_sep_def)

lemma replace_chr_notin: "a \<noteq> b \<Longrightarrow> a \<notin> set (replace_chr a b s)"
  by (auto simp: replace_chr_def)

lemma replace_chr_id: "a \<notin> set s \<Longrightarrow> replace_chr a b s = s"
  unfolding replace_chr_def by (induction s) auto

lemma set_collapse_separators: "set (collapse_separators plat t xs) \<subseteq> set xs"
proof (cases plat)
  case Posix
  then show ?thesis by (simp add: collapse_separators_def set_unique_pred)
next
  case Windows
  show ?thesis
  proof (cases xs)
    case Nil
    then show ?thesis using Windows by (simp add: collapse_separators_def)
  next
    case (Cons x rest)
    have "set (unique_pred (\<lambda>c1 c2. c1 = t \<and> c2 = t) rest) \<subseteq> set rest"
      by (rule set_unique_pred)
    then show ?thesis using Windows Cons by (auto simp: collapse_separators_def)
  qed
qed

lemma set_RemoveTrailingSlash: "set (RemoveTrailingSlash xs) \<subseteq> set xs"
  by (auto simp: RemoveTrailingSlash_def dest: in_set_butlastD)

lemma RemoveTrailingSlash_cases:
  "RemoveTrailingSlash q = q \<or> (q \<noteq> [] \<and> is_sep (last q) \<and> RemoveTrailingSlash q = butlast q)"
  by (auto simp: RemoveTrailingSlash_def is_sep_def)

lemma RemoveTrailingSlash_id_iff:
  "RemoveTrailingSlash r = r \<longleftrightarrow> r = [] \<or> \<not> is_sep (last r)"
proof -
  have "r \<noteq> [] \<Longrightarrow> butlast r \<noteq> r"
    by (metis length_butlast diff_less length_greater_0_conv less_irrefl zero_less_one)
  then show ?thesis by (auto simp: RemoveTrailingSlash_def is_sep_def)
qed

lemma collapse_separators_fix:
  "collapse_separators plat t (RemoveTrailingSlash (collapse_separators plat t xs)) =
     RemoveTrailingSlash (collapse_separators plat t xs)"
proof (cases plat)
  case Posix
  let ?q = "unique_pred (\<lambda>c1 c2. c1 = t \<and> c2 = t) xs"
  have s: "successively (\<lambda>a b. \<not> (a = t \<and> b = t)) ?q"
    by (rule successively_unique_pred)
  have "successively (\<lambda>a b. \<not> (a = t \<and> b = t)) (RemoveTrailingSlash ?q)"
    using RemoveTrailingSlash_cases[of ?q] s successively_butlast[OF s] by auto
  then show ?thesis
    using Posix by (simp add: collapse_separators_def unique_pred_id)
next
  case Windows
  show ?thesis
  proof (cases xs)
    case Nil
    then show ?thesis using Windows by (simp add: collapse_separators_def RemoveTrailingSlash_def)
  next
    case (Cons x rest)
    let ?u = "unique_pred (\<lambda>c1 c2. c1 = t \<and> c2 = t) rest"
    have q: "collapse_separators plat t xs = x # ?u"
      using Windows Cons by (simp add: collapse_separators_def)
    have s: "successively (\<lambda>a b. \<not> (a = t \<and> b = t)) ?u"
      by (rule successively_unique_pred)
    have fx: "collapse_separators plat t (x # u') = x # u'"
      if "successively (\<lambda>a b. \<not> (a = t \<and> b = t)) u'" for u'
      using Windows that by (simp add: collapse_separators_def unique_pred_id)
    from RemoveTrailingSlash_cases[of "x # ?u"]
    consider "RemoveTrailingSlash (x # ?u) = x # ?u"
      | "RemoveTrailingSlash (x # ?u) = butlast (x # ?u)" by blast
    then show ?thesis
    proof cases
      case 1
      then show ?thesis unfolding q using fx[OF s] by simp
    next
      case 2
      show ?thesis
      proof (cases "?u = []")
        case True
        then show ?thesis unfolding q 2 using Windows by (simp add: collapse_separators_def)
      next
        case False
        then have "butlast (x # ?u) = x # butlast ?u" by simp
        then show ?thesis unfolding q 2 using fx[OF successively_butlast[OF s]] by simp
      qed
    qed
  qed
qed

lemma RemoveTrailingSlash_fix:
  assumes q: "q = collapse_separators plat t2 xs"
    and t1: "t1 \<notin> set q"
    and sep: "\<And>c. is_sep c \<longleftrightarrow> c = t1 \<or> c = t2"
    and win: "plat = Windows \<longrightarrow> RemoveTrailingSlash q \<noteq> [t2]"
  shows "RemoveTrailingSlash (RemoveTrailingSlash q) = RemoveTrailingSlash q"
proof -
  from RemoveTrailingSlash_cases[of q]
  consider "RemoveTrailingSlash q = q"
    | "q \<noteq> []" "is_sep (last q)" "RemoveTrailingSlash q = butlast q" by blast
  then show ?thesis
  proof cases
    case 1
    then show ?thesis by simp
  next
    case 2
    let ?r = "butlast q"
    have lastq: "last q = t2" using 2(1,2) t1 sep by (metis last_in_set)
    have "?r = [] \<or> \<not> is_sep (last ?r)"
    proof (cases "?r = []")
      case True
      then show ?thesis by simp
    next
      case False
      have n1: "last ?r \<noteq> t1"
        using False t1 by (metis last_in_set in_set_butlastD)
      have n2: "last ?r \<noteq> t2"
      proof (cases plat)
        case Posix
        have "successively (\<lambda>a b. \<not> (a = t2 \<and> b = t2)) q"
          unfolding q Posix collapse_separators_def platform.case
          by (rule successively_unique_pred)
        then show ?thesis by (rule successively_last_butlast[OF _ 2(1) lastq False])
      next
        case Windows
        then obtain x rest where xs: "xs = x # rest"
          using q 2(1) by (cases xs) (simp_all add: collapse_separators_def)
        let ?u = "unique_pred (\<lambda>c1 c2. c1 = t2 \<and> c2 = t2) rest"
        have qq: "q = x # ?u" unfolding q xs using Windows by (simp add: collapse_separators_def)
        have s: "successively (\<lambda>a b. \<not> (a = t2 \<and> b = t2)) ?u"
          by (rule successively_unique_pred)
        have une: "?u \<noteq> []" using False qq by auto
        then have r: "?r = x # butlast ?u" using qq by simp
        have lu: "last ?u = t2" using lastq qq une by simp
        show ?thesis
        proof (cases "butlast ?u = []")
          case True
          then have "?r = [x]" using r by simp
          moreover have "?r \<noteq> [t2]" using win Windows unfolding 2(3) by blast
          ultimately show ?thesis by simp
        next
          case b: False
          have "last (butlast ?u) \<noteq> t2"
            using successively_last_butlast[OF s une lu b] .
          then show ?thesis using r b by simp
        qed
      qed
      show ?thesis using n1 n2 sep by simp
    qed
    then show ?thesis unfolding 2(3) by (simp add: RemoveTrailingSlash_id_iff)
  qed
qed

text \<open>
  Claim C3, as the code has it. On a build that is not for Windows, \<open>SanitizePath\<close> is
  idempotent for every path and every separator preference. On a Windows build the first
  character is left out of the collapsing of separator runs (so that a network path keeps
  its leading pair), and \<open>SanitizePath\<close> is idempotent for every path whose sanitized form
  is not the single target separator; a path made of two or more separators and nothing
  else sanitizes to that single separator, which a second pass removes.
\<close>

theorem SanitizePath_idempotent:
  assumes "plat = Windows \<longrightarrow> SanitizePath plat p ds \<noteq> [sanitize_type2 plat ds]"
  shows "SanitizePath plat (SanitizePath plat p ds) ds = SanitizePath plat p ds"
proof -
  let ?t1 = "sanitize_type1 plat ds" and ?t2 = "sanitize_type2 plat ds"
  let ?q = "collapse_separators plat ?t2 (replace_chr ?t1 ?t2 p)"
  let ?r = "RemoveTrailingSlash ?q"
  have r: "SanitizePath plat p ds = ?r" by (simp add: SanitizePath_def Let_def)
  have t1q: "?t1 \<notin> set ?q"
    using set_collapse_separators[of plat ?t2 "replace_chr ?t1 ?t2 p"]
      replace_chr_notin[OF sanitize_types(1), of plat ds p] by blast
  then have t1r: "?t1 \<notin> set ?r" using set_RemoveTrailingSlash[of ?q] by blast
  have "SanitizePath plat ?r ds = RemoveTrailingSlash (collapse_separators plat ?t2 ?r)"
    by (simp add: SanitizePath_def Let_def replace_chr_id[OF t1r])
  also have "\<dots> = RemoveTrailingSlash ?r"
    by (simp only: collapse_separators_fix)
  also have "\<dots> = ?r"
    by (rule RemoveTrailingSlash_fix[OF refl t1q sanitize_types(2)]) (use assms[unfolded r] in blast)
  finally show ?thesis unfolding r .
qed

theorem SanitizePath_idempotent_witness:
  "SanitizePath Posix (SanitizePath Posix ''//a///b/'' ForwardSlash) ForwardSlash
     = SanitizePath Posix ''//a///b/'' ForwardSlash
   \<and> SanitizePath Posix ''//a///b/'' ForwardSlash = ''/a/b''
   \<and> SanitizePath Windows ''//server///share/'' ForwardSlash
       \<noteq> [sanitize_type2 Windows ForwardSlash]
   \<and> SanitizePath Windows (SanitizePath Windows ''//server///share/'' ForwardSlash) ForwardSlash
       = SanitizePath Windows ''//server///share/'' ForwardSlash
   \<and> SanitizePath Windows ''//server///share/'' ForwardSlash = ''//server/share''"
proof -
  have w: "SanitizePath Windows ''//server///share/'' ForwardSlash = ''//server/share''"
    by (simp add: SanitizePath_def sanitize_type1_def sanitize_type2_def replace_chr_def
        collapse_separators_def RemoveTrailingSlash_def Let_def)
  have p: "SanitizePath Posix ''//a///b/'' ForwardSlash = ''/a/b''"
    by (simp add: SanitizePath_def sanitize_type1_def sanitize_type2_def replace_chr_def
        collapse_separators_def RemoveTrailingSlash_def Let_def)
  have h: "Windows = Windows \<longrightarrow>
      SanitizePath Windows ''//server///share/'' ForwardSlash \<noteq> [sanitize_type2 Windows ForwardSlash]"
    unfolding w by simp
  have hp: "Posix = Windows \<longrightarrow>
      SanitizePath Posix ''//a///b/'' ForwardSlash \<noteq> [sanitize_type2 Posix ForwardSlash]"
    by simp
  show ?thesis
    using SanitizePath_idempotent[OF h] SanitizePath_idempotent[OF hp] h w p by simp
qed

theorem SanitizePath_windows_counterexample:
  "SanitizePath Windows (SanitizePath Windows ''//'' ForwardSlash) ForwardSlash
     \<noteq> SanitizePath Windows ''//'' ForwardSlash"
  by (simp add: SanitizePath_def sanitize_type1_def sanitize_type2_def replace_chr_def
      collapse_separators_def RemoveTrailingSlash_def Let_def)

section \<open>Properties of the short-name encoder\<close>

lemma rfind_chr_nth:
  assumes "c \<in> set s"
  shows "\<exists>pre post. s = pre @ c # post \<and> c \<notin> set post \<and> rfind_chr c s = length pre"
proof -
  from assms obtain pre post where s: "s = pre @ c # post" "c \<notin> set post"
    by (meson split_list_last)
  then show ?thesis using rfind_chr_last[of c post pre] by blast
qed

lemma rfind_from_same: "rfind_from c s (rfind_chr c s) = rfind_chr c s"
proof (cases "c \<in> set s")
  case True
  then obtain pre post where s: "s = pre @ c # post" "c \<notin> set post"
    "rfind_chr c s = length pre" using rfind_chr_nth by blast
  have "take (Suc (length pre)) s = pre @ c # []" unfolding s(1) by simp
  then show ?thesis
    unfolding rfind_from_def s(3) using rfind_chr_last[of c "[]" pre] by simp
next
  case False
  then have "c \<notin> set (take (Suc npos) s)" by (meson in_set_takeD)
  then show ?thesis using False by (simp add: rfind_from_def rfind_chr_absent)
qed

lemma split_point_eq: "split_point filename = rfind_chr (CHR ''.'') filename"
  by (simp only: split_point_def Let_def rfind_from_same if_cancel)

text \<open>
  Claim C4 does not hold of the code. When the last \<open>'.'\<close> is the final character, the
  second search starts at that same position and finds the same \<open>'.'\<close> again: the split
  point is always the last \<open>'.'\<close>. For \<open>"a.b."\<close> the base name is taken from \<open>"a.b"\<close>
  and the extension stays blank.
\<close>

theorem split_point_is_last_dot:
  "split_point filename = rfind_chr (CHR ''.'') filename
   \<and> split_point ''a.b.'' = 3
   \<and> SplitFilename83 ''a.b.'' = Inr (''AB      '' @ [CHR 0x00], ''   '' @ [CHR 0x00])"
proof -
  have 1: "split_point filename = rfind_chr (CHR ''.'') filename"
    by (rule split_point_eq)
  have 2: "rfind_chr (CHR ''.'') ''a.b.'' = 3" by (simp add: rfind_chr_def)
  have 3: "SplitFilename83 ''a.b.'' = Inr (''AB      '' @ [CHR 0x00], ''   '' @ [CHR 0x00])"
    by (simp add: SplitFilename83_def split_point_def rfind_chr_def rfind_from_def
        size_sub_def substr_def size_add_def npos_def forbidden_characters_def toupper_def)
  have 4: "split_point ''a.b.'' = 3"
    by (simp only: split_point_eq 2)
  from 1 4 3 show ?thesis by (intro conjI)
qed

text \<open>
  Claim C5, as the code has it. The first eight accepted characters of \<open>"LongFileName"\<close>
  fill the base name; the ninth makes the encoder overwrite slots 7 and 8 with \<open>"~1"\<close>. The
  base name is the six characters \<open>"LONGFI"\<close> followed by the marker \<open>"~1"\<close>, and the
  extension is \<open>"TXT"\<close>.
\<close>

theorem SplitFilename83_LongFileName:
  "SplitFilename83 ''LongFileName.txt'' = Inr (''LONGFI~1'' @ [CHR 0x00], ''TXT'' @ [CHR 0x00])"
  by (simp add: SplitFilename83_def split_point_def rfind_chr_def rfind_from_def
      size_sub_def substr_def size_add_def npos_def forbidden_characters_def toupper_def)

theorem SplitFilename83_LongFileName_counterexample:
  "take 7 (case SplitFilename83 ''LongFileName.txt'' of Inl e \<Rightarrow> [] | Inr r \<Rightarrow> fst r)
     \<noteq> ''LONGFIL''"
  by (simp add: SplitFilename83_def split_point_def rfind_chr_def rfind_from_def
      size_sub_def substr_def size_add_def npos_def forbidden_characters_def toupper_def)

section \<open>Properties of the file handle\<close>

text \<open>
  Claim C9, as the code has it. On a handle that is not open, \<open>Tell\<close>, \<open>ReadImpl\<close> and
  \<open>WriteImpl\<close> (which the typed reads and writes call) return the largest value of their
  type, while \<open>GetSize\<close> returns 0. On an open handle, a read or a write of zero elements
  returns 0 and leaves the stream as it was.
\<close>

theorem IOFile_sentinels:
  "(\<not> IsOpen m_file \<longrightarrow>
      fst (GetSize io m_file) = 0
      \<and> Tell io m_file = - 1
      \<and> fst (ReadImpl io m_file n data_size) = - 1
      \<and> fst (WriteImpl io m_file data n data_size) = - 1)
   \<and> (IsOpen m_file \<longrightarrow>
      ReadImpl io m_file 0 data_size = (0, [], m_file)
      \<and> WriteImpl io m_file data 0 data_size = (0, m_file))"
proof (cases m_file)
  case None
  then have "\<not> IsOpen m_file" by (simp add: IsOpen_def)
  moreover have "fst (GetSize io m_file) = 0" "Tell io m_file = - 1"
    using None by (simp_all add: GetSize_def Tell_def)
  moreover have "fst (ReadImpl io m_file n data_size) = - 1"
    "fst (WriteImpl io m_file data n data_size) = - 1"
    using None by (simp_all add: ReadImpl_def WriteImpl_def)
  ultimately show ?thesis by simp
next
  case (Some f)
  then have "IsOpen m_file" by (simp add: IsOpen_def)
  moreover have "ReadImpl io m_file 0 data_size = (0, [], m_file)"
    "WriteImpl io m_file data 0 data_size = (0, m_file)"
    using Some by (simp_all add: ReadImpl_def WriteImpl_def)
  ultimately show ?thesis by simp
qed

theorem IOFile_sentinels_witness:
  "\<not> IsOpen (None :: unit option)
   \<and> fst (GetSize failing_stdio None) = 0
   \<and> Tell failing_stdio None = 18446744073709551615
   \<and> fst (ReadImpl failing_stdio None 4 8) = 18446744073709551615
   \<and> fst (WriteImpl failing_stdio None [1, 2] 4 8) = 18446744073709551615
   \<and> IsOpen (Some ())
   \<and> ReadImpl failing_stdio (Some ()) 0 8 = (0, [], Some ())
   \<and> WriteImpl failing_stdio (Some ()) [1, 2] 0 8 = (0, Some ())"
proof -
  have c: "\<not> IsOpen (None :: unit option)" and o: "IsOpen (Some ())"
    by (simp_all add: IsOpen_def)
  show ?thesis
    using c o IOFile_sentinels[of "None :: unit option" failing_stdio 4 8 "[1, 2]"]
      IOFile_sentinels[of "Some ()" failing_stdio 4 8 "[1, 2]"]
    by simp
qed

theorem GetSize_closed_counterexample:
  "\<not> IsOpen (None :: unit option) \<and> fst (GetSize failing_stdio None) \<noteq> 18446744073709551615"
  by (simp add: IsOpen_def GetSize_def)

section \<open>Properties of the user path registry\<close>

lemma lookup_subscript: "lookup (subscript paths k) r = lookup paths r"
  by (simp add: lookup_def subscript_def split: option.splits)

lemma subscript_present: "paths k = Some v \<Longrightarrow> subscript paths k = paths"
  by (simp add: subscript_def)

lemma subscript_other: "r \<noteq> k \<Longrightarrow> subscript paths k r = paths r"
  by (simp add: subscript_def split: option.splits)

lemma subscript_keeps: "paths r = Some v \<Longrightarrow> subscript paths k r = Some v"
  by (auto simp: subscript_def split: option.splits)

lemma lookup_present: "paths k = Some v \<Longrightarrow> lookup paths k = v"
  by (simp add: lookup_def)

lemma emplace_other: "r \<noteq> k \<Longrightarrow> emplace paths k v r = paths r"
  by (simp add: emplace_def split: option.splits)

lemma emplace_absent: "paths k = None \<Longrightarrow> emplace paths k v k = Some v"
  by (simp add: emplace_def)

lemma emplace_common_UserDir: "emplace_common c u paths UserDir = paths UserDir"
  by (simp add: emplace_common_def Let_def emplace_other)

lemma emplace_common_ConfigDir: "emplace_common c u paths ConfigDir = paths ConfigDir"
  by (simp add: emplace_common_def Let_def emplace_other)

subsection \<open>A rejected override\<close>

lemma override_rejected:
  "new_path \<noteq> [] \<Longrightarrow> \<not> IsDirectory env new_path \<Longrightarrow>
   override_and_return env c paths path new_path = (lookup paths path, subscript paths path)"
  by (simp add: override_and_return_def)

lemma override_query:
  "override_and_return env c paths path [] = (lookup paths path, subscript paths path)"
  by (simp add: override_and_return_def)

lemma ensure_set_up_done:
  "paths UserDir = Some u \<Longrightarrow> u \<noteq> [] \<Longrightarrow> ensure_set_up plat env c paths = Inr paths"
  by (simp add: ensure_set_up_def subscript_present[of paths UserDir u] lookup_present[of paths UserDir u])

lemma Resolve_set_up:
  "paths UserDir = Some u \<Longrightarrow> u \<noteq> [] \<Longrightarrow> Resolve plat env c paths role = Inr (lookup paths role)"
  by (simp add: Resolve_def GetUserPath_def ensure_set_up_done[of paths u] override_query)

lemmas registry_eval =
  resolve_after_def Resolve_def GetUserPath_def ensure_set_up_def set_up_paths_def
  emplace_common_def emplace_def subscript_def lookup_def override_and_return_def
  GetUserDirectory_def GetHomeDirectory_def Let_def

lemma emplace_present: "paths k \<noteq> None \<Longrightarrow> emplace paths k v = paths"
  by (auto simp: emplace_def split: option.splits)

lemma emplace_defined: "emplace paths k v k \<noteq> None"
  by (simp add: emplace_def split: option.splits)

lemma emplace_keeps_defined: "paths r \<noteq> None \<Longrightarrow> emplace paths k v r \<noteq> None"
  by (auto simp: emplace_def split: option.splits)

lemma emplace_keeps_entry: "paths r = Some x \<Longrightarrow> emplace paths k v r = Some x"
  by (auto simp: emplace_def split: option.splits)

lemma emplace_common_id:
  assumes "\<And>k. k \<noteq> RootDir \<Longrightarrow> paths k \<noteq> None"
  shows "emplace_common c up paths = paths"
  by (simp add: emplace_common_def Let_def emplace_present assms)

lemma emplace_common_keeps_defined:
  "paths r \<noteq> None \<Longrightarrow> emplace_common c up paths r \<noteq> None"
  unfolding emplace_common_def Let_def by (intro emplace_keeps_defined)

lemma emplace_common_defined:
  assumes "k \<noteq> RootDir" "k \<noteq> UserDir" "k \<noteq> ConfigDir" "k \<noteq> CacheDir"
  shows "emplace_common c up paths k \<noteq> None"
  using assms unfolding emplace_common_def Let_def
  by (cases k) (simp_all add: emplace_defined emplace_keeps_defined)

lemma subscript_self: "subscript paths k k = Some (lookup paths k)"
  by (simp add: subscript_def lookup_def split: option.splits)

lemma subscript_keeps_defined: "paths r \<noteq> None \<Longrightarrow> subscript paths k r \<noteq> None"
  by (auto simp: subscript_def split: option.splits)

lemma set_up_paths_form:
  "(\<exists>e. \<forall>p. set_up_paths plat env c p = Inl e)
   \<or> (\<exists>up cfg cch. \<forall>p. set_up_paths plat env c p =
         Inr (emplace_common c up (emplace (emplace (p(UserDir \<mapsto> up)) ConfigDir cfg) CacheDir cch)))"
proof (cases plat)
  case Windows
  let ?lp = "GetExeDirectory env @ DIR_SEP c @ USERDATA_DIR c @ DIR_SEP c"
  let ?up = "if \<not> IsDirectory env ?lp
             then appdata_roaming env @ DIR_SEP c @ EMU_DATA_DIR c @ DIR_SEP c else ?lp"
  have "\<forall>p. set_up_paths plat env c p =
         Inr (emplace_common c ?up (emplace (emplace (p(UserDir \<mapsto> ?up)) ConfigDir
           (?up @ CONFIG_DIR c @ DIR_SEP c)) CacheDir (?up @ CACHE_DIR c @ DIR_SEP c)))"
    using Windows by (simp add: set_up_paths_def Let_def)
  then show ?thesis by blast
next
  case Posix
  show ?thesis
  proof (cases "Exists env (ROOT_DIR c @ DIR_SEP c @ USERDATA_DIR c)")
    case True
    let ?up = "ROOT_DIR c @ DIR_SEP c @ USERDATA_DIR c @ DIR_SEP c"
    have "\<forall>p. set_up_paths plat env c p =
           Inr (emplace_common c ?up (emplace (emplace (p(UserDir \<mapsto> ?up)) ConfigDir
             (?up @ CONFIG_DIR c @ DIR_SEP c)) CacheDir (?up @ CACHE_DIR c @ DIR_SEP c)))"
      using Posix True by (simp add: set_up_paths_def Let_def)
    then show ?thesis by blast
  next
    case False
    show ?thesis
    proof (cases "GetUserDirectory env c ''XDG_DATA_HOME''")
      case (Inl e)
      then have "\<forall>p. set_up_paths plat env c p = Inl e"
        using Posix False by (simp add: set_up_paths_def)
      then show ?thesis by blast
    next
      case data: (Inr data_dir)
      show ?thesis
      proof (cases "GetUserDirectory env c ''XDG_CONFIG_HOME''")
        case (Inl e)
        then have "\<forall>p. set_up_paths plat env c p = Inl e"
          using Posix False data by (simp add: set_up_paths_def)
        then show ?thesis by blast
      next
        case config: (Inr config_dir)
        show ?thesis
        proof (cases "GetUserDirectory env c ''XDG_CACHE_HOME''")
          case (Inl e)
          then have "\<forall>p. set_up_paths plat env c p = Inl e"
            using Posix False data config by (simp add: set_up_paths_def)
          then show ?thesis by blast
        next
          case cache: (Inr cache_dir)
          let ?up = "data_dir @ DIR_SEP c @ EMU_DATA_DIR c @ DIR_SEP c"
          have "\<forall>p. set_up_paths plat env c p =
               Inr (emplace_common c ?up (emplace (emplace (p(UserDir \<mapsto> ?up)) ConfigDir
                 (config_dir @ DIR_SEP c @ EMU_DATA_DIR c @ DIR_SEP c)) CacheDir
                 (cache_dir @ DIR_SEP c @ EMU_DATA_DIR c @ DIR_SEP c)))"
            using Posix False data config cache by (simp add: set_up_paths_def Let_def)
          then show ?thesis by blast
        qed
      qed
    qed
  qed
qed

lemma filled_table:
  fixes p :: path_table
  shows "emplace_common c up (emplace (emplace (p(UserDir \<mapsto> up)) ConfigDir cfg) CacheDir cch)
           UserDir = Some up"
    and "k \<noteq> RootDir \<Longrightarrow>
         emplace_common c up (emplace (emplace (p(UserDir \<mapsto> up)) ConfigDir cfg) CacheDir cch)
           k \<noteq> None"
proof -
  let ?s = "emplace_common c up (emplace (emplace (p(UserDir \<mapsto> up)) ConfigDir cfg) CacheDir cch)"
  show u: "?s UserDir = Some up"
    by (simp add: emplace_common_UserDir emplace_other)
  assume k: "k \<noteq> RootDir"
  show "?s k \<noteq> None"
  proof (cases "k = UserDir \<or> k = ConfigDir \<or> k = CacheDir")
    case False
    then show ?thesis using k by (intro emplace_common_defined) simp_all
  next
    case True
    then consider "k = UserDir" | "k = ConfigDir" | "k = CacheDir" by blast
    then show ?thesis
    proof cases
      case 1
      then show ?thesis using u by simp
    next
      case 2
      show ?thesis unfolding 2
        by (intro emplace_common_keeps_defined emplace_keeps_defined emplace_defined)
    next
      case 3
      show ?thesis unfolding 3
        by (intro emplace_common_keeps_defined emplace_defined)
    qed
  qed
qed

lemma fill_again:
  fixes t :: path_table
  assumes "t UserDir = Some up" and "\<And>k. k \<noteq> RootDir \<Longrightarrow> t k \<noteq> None"
  shows "emplace_common c up (emplace (emplace (t(UserDir \<mapsto> up)) ConfigDir cfg) CacheDir cch) = t"
proof -
  have "t(UserDir \<mapsto> up) = t" using assms(1) by (rule map_upd_triv)
  moreover have "emplace t ConfigDir cfg = t" by (rule emplace_present) (simp add: assms(2))
  moreover have "emplace t CacheDir cch = t" by (rule emplace_present) (simp add: assms(2))
  moreover have "emplace_common c up t = t" by (rule emplace_common_id) (rule assms(2))
  ultimately show ?thesis by simp
qed

lemma ensure_set_up_again:
  assumes "ensure_set_up plat env c paths = Inr s1"
  shows "ensure_set_up plat env c (subscript s1 role) = Inr (subscript s1 role)"
proof -
  let ?p0 = "subscript paths UserDir"
  let ?t = "subscript s1 role"
  show ?thesis
  proof (cases "lookup ?p0 UserDir = []")
    case False
    then have "s1 = ?p0" using assms by (simp add: ensure_set_up_def Let_def)
    moreover have "?p0 UserDir = Some (lookup ?p0 UserDir)"
      by (simp add: subscript_self lookup_subscript)
    ultimately have "?t UserDir = Some (lookup ?p0 UserDir)"
      by (simp add: subscript_keeps)
    then show ?thesis using False by (rule ensure_set_up_done)
  next
    case True
    then have s1: "set_up_paths plat env c ?p0 = Inr s1"
      using assms by (simp add: ensure_set_up_def Let_def)
    from set_up_paths_form[of plat env c] s1
    obtain up cfg cch where f: "\<And>p. set_up_paths plat env c p =
        Inr (emplace_common c up (emplace (emplace (p(UserDir \<mapsto> up)) ConfigDir cfg) CacheDir cch))"
      by fastforce
    have s1f: "s1 = emplace_common c up (emplace (emplace (?p0(UserDir \<mapsto> up)) ConfigDir cfg) CacheDir cch)"
      using s1 f[of ?p0] by simp
    have u: "s1 UserDir = Some up" and d: "\<And>k. k \<noteq> RootDir \<Longrightarrow> s1 k \<noteq> None"
      unfolding s1f by (rule filled_table)+
    have tu: "?t UserDir = Some up" using u by (rule subscript_keeps)
    have td: "\<And>k. k \<noteq> RootDir \<Longrightarrow> ?t k \<noteq> None"
      using d by (intro subscript_keeps_defined)
    have "set_up_paths plat env c ?t = Inr ?t"
      unfolding f[of ?t] using fill_again[of ?t up c cfg cch, OF tu td] by simp
    moreover have "subscript ?t UserDir = ?t" using tu by (rule subscript_present)
    ultimately show ?thesis by (simp add: ensure_set_up_def Let_def)
  qed
qed

lemma GetUserPath_rejected:
  assumes "new_path \<noteq> []" "\<not> IsDirectory env new_path"
  shows "GetUserPath plat env c paths role new_path =
     (case ensure_set_up plat env c paths of
        Inl e \<Rightarrow> Inl e | Inr s1 \<Rightarrow> Inr (lookup s1 role, subscript s1 role))"
  by (cases "ensure_set_up plat env c paths")
     (simp_all add: GetUserPath_def override_rejected[OF assms])

lemma Resolve_unfold:
  "Resolve plat env c paths r =
     (case ensure_set_up plat env c paths of Inl e \<Rightarrow> Inl e | Inr s1 \<Rightarrow> Inr (lookup s1 r))"
  by (cases "ensure_set_up plat env c paths")
     (simp_all add: Resolve_def GetUserPath_def override_query)

lemma Resolve_after_subscript:
  assumes "ensure_set_up plat env c paths = Inr s1"
  shows "Resolve plat env c (subscript s1 role) r = Inr (lookup s1 r)"
  by (simp add: Resolve_unfold ensure_set_up_again[OF assms] lookup_subscript)

lemma run_calls_append:
  "run_calls plat env c s (xs @ ys) =
     (case run_calls plat env c s xs of Inl e \<Rightarrow> Inl e | Inr s' \<Rightarrow> run_calls plat env c s' ys)"
  by (induction xs arbitrary: s) (simp_all split: sum.splits)

lemma GetUserPath_returns:
  assumes "plat = Windows \<or> Exists env (ROOT_DIR c @ DIR_SEP c @ USERDATA_DIR c)"
  shows "\<exists>res. GetUserPath plat env c paths role new_path = Inr res"
proof -
  have "\<exists>s. set_up_paths plat env c p = Inr s" for p
    using assms by (cases plat) (auto simp: set_up_paths_def Let_def)
  then have "\<exists>s. ensure_set_up plat env c paths = Inr s"
    by (simp add: ensure_set_up_def Let_def)
  then show ?thesis by (auto simp: GetUserPath_def)
qed

lemma portable_table_reached:
  "run_calls Posix portable_host example_consts Map.empty [(UserDir, [])] = Inr portable_table"
proof -
  have "snd (override_and_return portable_host example_consts s UserDir []) = subscript s UserDir" for s
    by (simp add: override_query)
  have "ensure_set_up Posix portable_host example_consts Map.empty = Inr portable_table"
    apply (simp add: ensure_set_up_def set_up_paths_def emplace_common_def emplace_def
        subscript_def lookup_def Let_def portable_host_def example_consts_def)
    apply (rule ext)
    subgoal for k by (cases k) (simp_all add: portable_table_def)
    done
  moreover have "subscript portable_table UserDir = portable_table"
    by (rule subscript_present[of _ _ "''./user/''"]) (simp add: portable_table_def)
  ultimately show ?thesis by (simp add: GetUserPath_def override_query)
qed

text \<open>
  Claim C8. An override with a non-empty path that is not a directory returns what the
  plain query returns, whatever the table, and the table it leaves resolves every role to
  what the table before the call resolved it to; if the set-up aborts, it aborts for the
  override and for the query alike. So after any run of calls, a rejected override changes
  no result of \<open>Resolve\<close>. On Windows or with an install-relative user directory the call
  always returns. On a table that has been set up it returns the entry of the role as it
  was, and the table changes at most by an empty entry for a role that had none.
\<close>

theorem Override_rejected_keeps_table:
  assumes "new_path \<noteq> []" and "\<not> IsDirectory env new_path"
  shows "GetUserPath plat env c paths role new_path = GetUserPath plat env c paths role []
       \<and> (case GetUserPath plat env c paths role new_path of
            Inl e \<Rightarrow> Resolve plat env c paths r = Inl e
          | Inr res \<Rightarrow> Resolve plat env c paths role = Inr (fst res)
                       \<and> Resolve plat env c (snd res) r = Resolve plat env c paths r)
       \<and> resolve_after plat env c (calls @ [(role, new_path)]) r = resolve_after plat env c calls r
       \<and> (plat = Windows \<or> Exists env (ROOT_DIR c @ DIR_SEP c @ USERDATA_DIR c)
            \<longrightarrow> (\<exists>res. GetUserPath plat env c paths role new_path = Inr res))
       \<and> (paths UserDir = Some u \<and> u \<noteq> [] \<longrightarrow>
            GetUserPath plat env c paths role new_path = Inr (lookup paths role, subscript paths role)
            \<and> Resolve plat env c paths role = Inr (lookup paths role)
            \<and> Resolve plat env c (subscript paths role) r = Resolve plat env c paths r
            \<and> lookup (subscript paths role) r = lookup paths r)"
proof -
  note rej = GetUserPath_rejected[OF assms]
  have 1: "GetUserPath plat env c paths role new_path = GetUserPath plat env c paths role []"
    by (cases "ensure_set_up plat env c paths")
       (simp_all add: GetUserPath_def override_rejected[OF assms] override_query)
  have after: "(case GetUserPath plat env c s role new_path of
            Inl e \<Rightarrow> Inl e | Inr res \<Rightarrow> Resolve plat env c (snd res) x) = Resolve plat env c s x"
    for s x
  proof (cases "ensure_set_up plat env c s")
    case (Inl e)
    then show ?thesis by (simp add: rej Resolve_unfold)
  next
    case (Inr s1)
    then show ?thesis
      by (simp add: rej Resolve_after_subscript[OF Inr]) (simp add: Resolve_unfold Inr)
  qed
  have 2: "(case GetUserPath plat env c paths role new_path of
            Inl e \<Rightarrow> Resolve plat env c paths r = Inl e
          | Inr res \<Rightarrow> Resolve plat env c paths role = Inr (fst res)
                       \<and> Resolve plat env c (snd res) r = Resolve plat env c paths r)"
  proof (cases "ensure_set_up plat env c paths")
    case (Inl e)
    then show ?thesis by (simp add: rej Resolve_unfold)
  next
    case (Inr s1)
    then show ?thesis
      by (simp add: rej Resolve_after_subscript[OF Inr]) (simp add: Resolve_unfold Inr)
  qed
  have 3: "resolve_after plat env c (calls @ [(role, new_path)]) r = resolve_after plat env c calls r"
  proof (cases "run_calls plat env c Map.empty calls")
    case (Inl e)
    then show ?thesis by (simp add: resolve_after_def run_calls_append)
  next
    case (Inr s)
    have "resolve_after plat env c (calls @ [(role, new_path)]) r =
            (case GetUserPath plat env c s role new_path of
               Inl e \<Rightarrow> Inl e | Inr res \<Rightarrow> Resolve plat env c (snd res) r)"
      by (simp add: resolve_after_def run_calls_append Inr split: sum.splits)
    also have "\<dots> = Resolve plat env c s r" by (rule after)
    finally show ?thesis by (simp add: resolve_after_def Inr)
  qed
  have 4: "plat = Windows \<or> Exists env (ROOT_DIR c @ DIR_SEP c @ USERDATA_DIR c)
            \<longrightarrow> (\<exists>res. GetUserPath plat env c paths role new_path = Inr res)"
    using GetUserPath_returns by blast
  have 5: "paths UserDir = Some u \<and> u \<noteq> [] \<longrightarrow>
            GetUserPath plat env c paths role new_path = Inr (lookup paths role, subscript paths role)
            \<and> Resolve plat env c paths role = Inr (lookup paths role)
            \<and> Resolve plat env c (subscript paths role) r = Resolve plat env c paths r
            \<and> lookup (subscript paths role) r = lookup paths r"
  proof
    assume a: "paths UserDir = Some u \<and> u \<noteq> []"
    then have su: "ensure_set_up plat env c paths = Inr paths"
      by (simp add: ensure_set_up_done[of paths u])
    have g: "GetUserPath plat env c paths role new_path = Inr (lookup paths role, subscript paths role)"
      by (simp add: rej su)
    have r1: "Resolve plat env c paths x = Inr (lookup paths x)" for x
      by (simp add: Resolve_unfold su)
    have r2: "Resolve plat env c (subscript paths role) r = Inr (lookup paths r)"
      by (rule Resolve_after_subscript[OF su])
    show "GetUserPath plat env c paths role new_path = Inr (lookup paths role, subscript paths role)
            \<and> Resolve plat env c paths role = Inr (lookup paths role)
            \<and> Resolve plat env c (subscript paths role) r = Resolve plat env c paths r
            \<and> lookup (subscript paths role) r = lookup paths r"
      using g r1 r2 by (simp add: lookup_subscript)
  qed
  from 1 2 3 4 5 show ?thesis by (intro conjI)
qed

theorem Override_rejected_keeps_table_witness:
  "''/nowhere'' \<noteq> [] \<and> \<not> IsDirectory portable_host ''/nowhere''
   \<and> GetUserPath Posix portable_host example_consts Map.empty ConfigDir ''/nowhere''
       = GetUserPath Posix portable_host example_consts Map.empty ConfigDir []
   \<and> (Posix = Windows \<or> Exists portable_host
         (ROOT_DIR example_consts @ DIR_SEP example_consts @ USERDATA_DIR example_consts))
   \<and> (\<exists>res. GetUserPath Posix portable_host example_consts Map.empty ConfigDir ''/nowhere''
         = Inr res)
   \<and> resolve_after Posix portable_host example_consts [] ConfigDir = Inr ''./user/config/''
   \<and> resolve_after Posix portable_host example_consts [(ConfigDir, ''/nowhere'')] ConfigDir
       = Inr ''./user/config/''
   \<and> resolve_after Posix portable_host example_consts [(NANDDir, ''/data'')] NANDDir
       = Inr ''/data''
   \<and> resolve_after Posix portable_host example_consts
        [(NANDDir, ''/data''), (ConfigDir, ''/nowhere'')] NANDDir = Inr ''/data''
   \<and> run_calls Posix portable_host example_consts Map.empty [(UserDir, [])] = Inr portable_table
   \<and> portable_table UserDir = Some ''./user/'' \<and> ''./user/'' \<noteq> []
   \<and> GetUserPath Posix portable_host example_consts portable_table ConfigDir ''/nowhere''
       = Inr (''./user/config/'', portable_table)
   \<and> Resolve Posix portable_host example_consts portable_table ConfigDir = Inr ''./user/config/''"
proof -
  have a: "''/nowhere'' \<noteq> []" and b: "\<not> IsDirectory portable_host ''/nowhere''"
    by (simp_all add: portable_host_def)
  have h: "Posix = Windows \<or> Exists portable_host
         (ROOT_DIR example_consts @ DIR_SEP example_consts @ USERDATA_DIR example_consts)"
    by (simp add: portable_host_def example_consts_def)
  have u: "portable_table UserDir = Some ''./user/''" and n: "''./user/'' \<noteq> []"
    by (simp_all add: portable_table_def)
  have l: "lookup portable_table ConfigDir = ''./user/config/''"
    by (simp add: lookup_def portable_table_def)
  have s: "subscript portable_table ConfigDir = portable_table"
    by (rule subscript_present[of _ _ "''./user/config/''"]) (simp add: portable_table_def)
  have e1: "resolve_after Posix portable_host example_consts [] ConfigDir = Inr ''./user/config/''"
    by (simp add: registry_eval portable_host_def example_consts_def)
  have e2: "resolve_after Posix portable_host example_consts [(NANDDir, ''/data'')] NANDDir
              = Inr ''/data''"
    by (simp add: registry_eval portable_host_def example_consts_def)
  note t1 = Override_rejected_keeps_table[where new_path = "''/nowhere''" and env = portable_host
      and plat = Posix and c = example_consts and paths = Map.empty and role = ConfigDir
      and r = ConfigDir and calls = "[]" and u = "''./user/''", OF a b]
  note t2 = Override_rejected_keeps_table[where new_path = "''/nowhere''" and env = portable_host
      and plat = Posix and c = example_consts and paths = Map.empty and role = ConfigDir
      and r = NANDDir and calls = "[(NANDDir, ''/data'')]" and u = "''./user/''", OF a b]
  note t3 = Override_rejected_keeps_table[where new_path = "''/nowhere''" and env = portable_host
      and plat = Posix and c = example_consts and paths = portable_table and role = ConfigDir
      and r = ConfigDir and calls = "[]" and u = "''./user/''", OF a b, unfolded l s]
  from t1 have c1: "GetUserPath Posix portable_host example_consts Map.empty ConfigDir ''/nowhere''
       = GetUserPath Posix portable_host example_consts Map.empty ConfigDir []" by blast
  from t1 h have c2: "\<exists>res. GetUserPath Posix portable_host example_consts Map.empty ConfigDir
       ''/nowhere'' = Inr res" by blast
  from t1 e1 have c3: "resolve_after Posix portable_host example_consts [(ConfigDir, ''/nowhere'')]
       ConfigDir = Inr ''./user/config/''" by simp
  from t2 e2 have c4: "resolve_after Posix portable_host example_consts
        [(NANDDir, ''/data''), (ConfigDir, ''/nowhere'')] NANDDir = Inr ''/data''" by simp
  from t3 u n have c5: "GetUserPath Posix portable_host example_consts portable_table ConfigDir
       ''/nowhere'' = Inr (''./user/config/'', portable_table)
     \<and> Resolve Posix portable_host example_consts portable_table ConfigDir = Inr ''./user/config/''"
    by blast
  from a b c1 h c2 e1 c3 e2 c4 portable_table_reached u n c5 show ?thesis by (intro conjI) blast+
qed

subsection \<open>The configuration directory under the user directory\<close>

lemma set_up_portable:
  assumes "plat = Windows \<or> Exists env (ROOT_DIR c @ DIR_SEP c @ USERDATA_DIR c)"
    and "DIR_SEP c = [d]" and "paths ConfigDir = None"
  shows "\<exists>s. set_up_paths plat env c paths = Inr s \<and> config_under_user c s"
proof (cases plat)
  case Windows
  then show ?thesis using assms(2,3)
    by (simp add: set_up_paths_def Let_def config_under_user_def emplace_common_UserDir
        emplace_common_ConfigDir emplace_other emplace_absent)
next
  case Posix
  then have "Exists env (ROOT_DIR c @ DIR_SEP c @ USERDATA_DIR c)" using assms(1) by simp
  then show ?thesis using Posix assms(2,3)
    by (simp add: set_up_paths_def Let_def config_under_user_def emplace_common_UserDir
        emplace_common_ConfigDir emplace_other emplace_absent)
qed

lemma ensure_set_up_fresh:
  assumes "plat = Windows \<or> Exists env (ROOT_DIR c @ DIR_SEP c @ USERDATA_DIR c)"
    and "DIR_SEP c = [d]"
  shows "\<exists>s. ensure_set_up plat env c Map.empty = Inr s \<and> config_under_user c s"
proof -
  have "(Map.empty(UserDir \<mapsto> [])) ConfigDir = (None :: string option)" by simp
  from set_up_portable[where paths = "Map.empty(UserDir \<mapsto> [])", OF assms this]
  show ?thesis by (simp add: ensure_set_up_def subscript_def lookup_def)
qed

lemma config_under_user_D:
  assumes "config_under_user c s"
  obtains u where "s UserDir = Some u" "u \<noteq> []" "[last u] = DIR_SEP c"
    "s ConfigDir = Some (u @ CONFIG_DIR c @ DIR_SEP c)"
  using assms by (auto simp: config_under_user_def split: option.splits)

lemma config_under_user_I:
  "s UserDir = Some u \<Longrightarrow> u \<noteq> [] \<Longrightarrow> [last u] = DIR_SEP c \<Longrightarrow>
   s ConfigDir = Some (u @ CONFIG_DIR c @ DIR_SEP c) \<Longrightarrow> config_under_user c s"
  by (simp add: config_under_user_def)

lemma ensure_set_up_kept:
  assumes "config_under_user c s"
  shows "ensure_set_up plat env c s = Inr s"
proof -
  from assms obtain u where "s UserDir = Some u" "u \<noteq> []" by (rule config_under_user_D)
  then show ?thesis by (rule ensure_set_up_done[of s u])
qed

lemma config_under_user_subscript:
  assumes "config_under_user c s"
  shows "config_under_user c (subscript s k)"
proof -
  from assms obtain u where u: "s UserDir = Some u" "u \<noteq> []" "[last u] = DIR_SEP c"
    "s ConfigDir = Some (u @ CONFIG_DIR c @ DIR_SEP c)" by (rule config_under_user_D)
  show ?thesis
    by (rule config_under_user_I[of _ u])
       (simp_all add: u subscript_keeps[of s UserDir u] subscript_keeps[of s ConfigDir])
qed

lemma override_keeps_config:
  assumes cu: "config_under_user c s" and k: "keeps_config env (role, p)" and d: "DIR_SEP c = [d]"
  shows "config_under_user c (snd (override_and_return env c s role p))"
proof (cases "p \<noteq> [] \<and> IsDirectory env p")
  case False
  then have "override_and_return env c s role p = (lookup s role, subscript s role)"
    by (auto simp: override_and_return_def)
  then show ?thesis using config_under_user_subscript[OF cu] by simp
next
  case True
  then have r: "role \<noteq> RootDir" "role \<noteq> ConfigDir" using k by (auto simp: keeps_config_def)
  from cu obtain u where u: "s UserDir = Some u" "u \<noteq> []" "[last u] = DIR_SEP c"
    "s ConfigDir = Some (u @ CONFIG_DIR c @ DIR_SEP c)" by (rule config_under_user_D)
  show ?thesis
  proof (cases "role = UserDir")
    case ud: True
    define s1 where "s1 = subscript (s(UserDir \<mapsto> p)) RootDir"
    define up where "up = lookup s1 RootDir @ DIR_SEP c"
    define s2 where "s2 = s1(UserDir \<mapsto> up, ConfigDir \<mapsto> up @ CONFIG_DIR c @ DIR_SEP c,
      CacheDir \<mapsto> up @ CACHE_DIR c @ DIR_SEP c, SDMCDir \<mapsto> up @ SDMC_DIR c @ DIR_SEP c,
      NANDDir \<mapsto> up @ NAND_DIR c @ DIR_SEP c)"
    have "override_and_return env c s role p = (lookup s2 UserDir, subscript s2 UserDir)"
      using True ud by (simp add: override_and_return_def Let_def s1_def up_def s2_def)
    moreover have "config_under_user c s2"
      by (rule config_under_user_I[of _ up]) (simp_all add: s2_def up_def d)
    ultimately show ?thesis using config_under_user_subscript by simp
  next
    case leaf: False
    have "override_and_return env c s role p =
            (lookup (s(role \<mapsto> p)) role, subscript (s(role \<mapsto> p)) role)"
      using True r leaf by (simp add: override_and_return_def Let_def)
    moreover have "config_under_user c (s(role \<mapsto> p))"
      by (rule config_under_user_I[of _ u]) (use u r leaf in simp_all)
    ultimately show ?thesis using config_under_user_subscript by simp
  qed
qed

lemma GetUserPath_keeps_config:
  assumes "s = Map.empty \<or> config_under_user c s"
    and "plat = Windows \<or> Exists env (ROOT_DIR c @ DIR_SEP c @ USERDATA_DIR c)"
    and "DIR_SEP c = [d]" and "keeps_config env call"
  shows "\<exists>r. GetUserPath plat env c s (fst call) (snd call) = Inr r \<and> config_under_user c (snd r)"
proof -
  obtain s1 where s1: "ensure_set_up plat env c s = Inr s1" "config_under_user c s1"
    using assms(1) ensure_set_up_fresh[OF assms(2,3)] ensure_set_up_kept[of c s plat env] by blast
  have "keeps_config env (fst call, snd call)" using assms(4) by simp
  from override_keeps_config[OF s1(2) this assms(3)] s1(1)
  show ?thesis by (simp add: GetUserPath_def)
qed

lemma run_calls_keeps_config:
  assumes "plat = Windows \<or> Exists env (ROOT_DIR c @ DIR_SEP c @ USERDATA_DIR c)"
    and "DIR_SEP c = [d]"
  shows "s = Map.empty \<or> config_under_user c s \<Longrightarrow> list_all (keeps_config env) calls \<Longrightarrow>
     \<exists>s'. run_calls plat env c s calls = Inr s' \<and> (s' = Map.empty \<or> config_under_user c s')"
proof (induction calls arbitrary: s)
  case Nil
  then show ?case by simp
next
  case (Cons call rest)
  from Cons.prems(2) have k: "keeps_config env call" and ks: "list_all (keeps_config env) rest"
    by simp_all
  from GetUserPath_keeps_config[OF Cons.prems(1) assms k]
  obtain r where r: "GetUserPath plat env c s (fst call) (snd call) = Inr r"
    "config_under_user c (snd r)" by blast
  from Cons.IH[of "snd r"] r(2) ks
  obtain s' where "run_calls plat env c (snd r) rest = Inr s'"
    "s' = Map.empty \<or> config_under_user c s'" by blast
  then show ?case using r(1) by simp
qed

lemma Resolve_both:
  assumes "s = Map.empty \<or> config_under_user c s"
    and "plat = Windows \<or> Exists env (ROOT_DIR c @ DIR_SEP c @ USERDATA_DIR c)"
    and "DIR_SEP c = [d]"
  shows "\<exists>u. Resolve plat env c s UserDir = Inr u
            \<and> Resolve plat env c s ConfigDir = Inr (u @ CONFIG_DIR c @ DIR_SEP c)
            \<and> u \<noteq> [] \<and> [last u] = DIR_SEP c"
proof -
  obtain s1 where s1: "ensure_set_up plat env c s = Inr s1" "config_under_user c s1"
    using assms(1) ensure_set_up_fresh[OF assms(2,3)] ensure_set_up_kept[of c s plat env] by blast
  from s1(2) obtain u where u: "s1 UserDir = Some u" "u \<noteq> []" "[last u] = DIR_SEP c"
    "s1 ConfigDir = Some (u @ CONFIG_DIR c @ DIR_SEP c)" by (rule config_under_user_D)
  have "Resolve plat env c s role = Inr (lookup s1 role)" for role
    by (simp add: Resolve_def GetUserPath_def s1(1) override_query)
  then show ?thesis using u by (simp add: lookup_def)
qed

lemma direct_descendant_append:
  assumes "u \<noteq> []" "last u = d" "is_sep d" "name \<noteq> []" "\<not> list_ex is_sep name"
  shows "direct_descendant u (u @ name @ [d])"
proof -
  have "RemoveTrailingSlash (name @ [d]) = name"
    using assms(3) by (simp add: RemoveTrailingSlash_def is_sep_def)
  then show ?thesis using assms by (simp add: direct_descendant_def)
qed

text \<open>
  Claim C1, as the code has it. The relation is established by the set-up on Windows or
  with an install-relative user directory (the set-up from the base-directory variables
  puts the configuration directory under \<open>XDG_CONFIG_HOME\<close> instead), and it is kept by
  every call that is a query, a rejected override, or an override of a role other than
  the root and the configuration directory itself. After any run of such calls,
  \<open>Resolve(ConfigDir)\<close> is \<open>Resolve(UserDir)\<close> followed by \<open>CONFIG_DIR DIR_SEP\<close>, a
  direct descendant of it when \<open>CONFIG_DIR\<close> is one name and \<open>DIR_SEP\<close> one separator.
\<close>

theorem ConfigDir_under_UserDir:
  assumes "plat = Windows \<or> Exists env (ROOT_DIR c @ DIR_SEP c @ USERDATA_DIR c)"
    and "DIR_SEP c = [d]" and "is_sep d"
    and "CONFIG_DIR c \<noteq> []" and "\<not> list_ex is_sep (CONFIG_DIR c)"
    and "list_all (keeps_config env) calls"
  shows "\<exists>user_dir. resolve_after plat env c calls UserDir = Inr user_dir
           \<and> resolve_after plat env c calls ConfigDir = Inr (user_dir @ CONFIG_DIR c @ DIR_SEP c)
           \<and> direct_descendant user_dir (user_dir @ CONFIG_DIR c @ DIR_SEP c)"
proof -
  from run_calls_keeps_config[OF assms(1,2) _ assms(6), of Map.empty]
  obtain s where s: "run_calls plat env c Map.empty calls = Inr s"
    "s = Map.empty \<or> config_under_user c s" by blast
  from Resolve_both[OF s(2) assms(1,2)]
  obtain u where u: "Resolve plat env c s UserDir = Inr u"
    "Resolve plat env c s ConfigDir = Inr (u @ CONFIG_DIR c @ DIR_SEP c)"
    "u \<noteq> []" "[last u] = DIR_SEP c" by blast
  have "last u = d" using u(4) assms(2) by simp
  then have "direct_descendant u (u @ CONFIG_DIR c @ [d])"
    using u(3) assms(3,4,5) by (intro direct_descendant_append)
  then show ?thesis using u(1,2) s(1) assms(2) by (simp add: resolve_after_def)
qed

theorem ConfigDir_under_UserDir_witness:
  "(Posix = Windows \<or> Exists portable_host
       (ROOT_DIR example_consts @ DIR_SEP example_consts @ USERDATA_DIR example_consts))
   \<and> DIR_SEP example_consts = [CHR ''/''] \<and> is_sep (CHR ''/'')
   \<and> CONFIG_DIR example_consts \<noteq> [] \<and> \<not> list_ex is_sep (CONFIG_DIR example_consts)
   \<and> list_all (keeps_config portable_host)
        [(ConfigDir, []), (NANDDir, ''/data''), (ConfigDir, ''/nowhere'')]
   \<and> resolve_after Posix portable_host example_consts
        [(ConfigDir, []), (NANDDir, ''/data''), (ConfigDir, ''/nowhere'')] UserDir
       = Inr ''./user/''
   \<and> resolve_after Posix portable_host example_consts
        [(ConfigDir, []), (NANDDir, ''/data''), (ConfigDir, ''/nowhere'')] ConfigDir
       = Inr ''./user/config/''
   \<and> direct_descendant ''./user/'' ''./user/config/''"
proof -
  let ?calls = "[(ConfigDir, []), (NANDDir, ''/data''), (ConfigDir, ''/nowhere'')]"
  have h1: "Posix = Windows \<or> Exists portable_host
       (ROOT_DIR example_consts @ DIR_SEP example_consts @ USERDATA_DIR example_consts)"
    by (simp add: portable_host_def example_consts_def)
  have h2: "DIR_SEP example_consts = [CHR ''/'']" by (simp add: example_consts_def)
  have h3: "is_sep (CHR ''/'')" by (simp add: is_sep_def)
  have h4: "CONFIG_DIR example_consts \<noteq> []" by (simp add: example_consts_def)
  have h5: "\<not> list_ex is_sep (CONFIG_DIR example_consts)"
    by (simp add: example_consts_def is_sep_def)
  have h6: "list_all (keeps_config portable_host) ?calls"
    by (simp add: keeps_config_def portable_host_def)
  have e: "resolve_after Posix portable_host example_consts ?calls UserDir = Inr ''./user/''"
    by (simp add: registry_eval portable_host_def example_consts_def)
  from ConfigDir_under_UserDir[OF h1 h2 h3 h4 h5 h6] e
  have "resolve_after Posix portable_host example_consts ?calls ConfigDir
          = Inr (''./user/'' @ CONFIG_DIR example_consts @ DIR_SEP example_consts)
        \<and> direct_descendant ''./user/''
            (''./user/'' @ CONFIG_DIR example_consts @ DIR_SEP example_consts)"
    by auto
  then have "resolve_after Posix portable_host example_consts ?calls ConfigDir = Inr ''./user/config/''
        \<and> direct_descendant ''./user/'' ''./user/config/''"
    by (simp add: example_consts_def)
  then show ?thesis using h1 h2 h3 h4 h5 h6 e by blast
qed

theorem ConfigDir_xdg_counterexample:
  "resolve_after Posix xdg_host example_consts [] UserDir = Inr ''/home/u/.local/share/yuzu/''
   \<and> resolve_after Posix xdg_host example_consts [] ConfigDir = Inr ''/home/u/.config/yuzu/''
   \<and> \<not> direct_descendant ''/home/u/.local/share/yuzu/'' ''/home/u/.config/yuzu/''"
proof -
  have 1: "resolve_after Posix xdg_host example_consts [] UserDir
             = Inr ''/home/u/.local/share/yuzu/''"
    by (simp add: registry_eval xdg_host_def example_consts_def)
  have 2: "resolve_after Posix xdg_host example_consts [] ConfigDir
             = Inr ''/home/u/.config/yuzu/''"
    by (simp add: registry_eval xdg_host_def example_consts_def)
  have 3: "\<not> direct_descendant ''/home/u/.local/share/yuzu/'' ''/home/u/.config/yuzu/''"
    by (simp add: direct_descendant_def)
  from 1 2 3 show ?thesis by blast
qed

subsection \<open>An override of the user directory\<close>

text \<open>
  Claim C2 does not hold of the code. An accepted override of \<open>UserDir\<close> stores the new
  path and at once overwrites it with \<open>paths[RootDir] + DIR_SEP\<close>, and derives the
  dependent roles from that. With no root directory set, overriding the user directory
  with the existing directory \<open>/data\<close> leaves the user directory at \<open>/\<close> and the dependent
  roles at \<open>/config/\<close>, \<open>/cache/\<close>, \<open>/sdmc/\<close> and \<open>/nand/\<close>.
\<close>

theorem Override_UserDir_ignores_new_path:
  "IsDirectory portable_host ''/data''
   \<and> resolve_after Posix portable_host example_consts [(UserDir, [])] UserDir = Inr ''./user/''
   \<and> resolve_after Posix portable_host example_consts
        [(UserDir, []), (UserDir, ''/data'')] UserDir = Inr ''/''
   \<and> resolve_after Posix portable_host example_consts
        [(UserDir, []), (UserDir, ''/data'')] ConfigDir = Inr ''/config/''
   \<and> resolve_after Posix portable_host example_consts
        [(UserDir, []), (UserDir, ''/data'')] CacheDir = Inr ''/cache/''
   \<and> resolve_after Posix portable_host example_consts
        [(UserDir, []), (UserDir, ''/data'')] SDMCDir = Inr ''/sdmc/''
   \<and> resolve_after Posix portable_host example_consts
        [(UserDir, []), (UserDir, ''/data'')] NANDDir = Inr ''/nand/''"
proof -
  have 0: "IsDirectory portable_host ''/data''" by (simp add: portable_host_def)
  have 1: "resolve_after Posix portable_host example_consts [(UserDir, [])] UserDir = Inr ''./user/''"
    by (simp add: registry_eval portable_host_def example_consts_def)
  have 2: "resolve_after Posix portable_host example_consts
        [(UserDir, []), (UserDir, ''/data'')] UserDir = Inr ''/''"
    by (simp add: registry_eval portable_host_def example_consts_def)
  have 3: "resolve_after Posix portable_host example_consts
        [(UserDir, []), (UserDir, ''/data'')] ConfigDir = Inr ''/config/''"
    by (simp add: registry_eval portable_host_def example_consts_def)
  have 4: "resolve_after Posix portable_host example_consts
        [(UserDir, []), (UserDir, ''/data'')] CacheDir = Inr ''/cache/''"
    by (simp add: registry_eval portable_host_def example_consts_def)
  have 5: "resolve_after Posix portable_host example_consts
        [(UserDir, []), (UserDir, ''/data'')] SDMCDir = Inr ''/sdmc/''"
    by (simp add: registry_eval portable_host_def example_consts_def)
  have 6: "resolve_after Posix portable_host example_consts
        [(UserDir, []), (UserDir, ''/data'')] NANDDir = Inr ''/nand/''"
    by (simp add: registry_eval portable_host_def example_consts_def)
  from 0 1 2 3 4 5 6 show ?thesis by blast
qed

end
